theory Spec2Isabelle
  imports Main "HOL-Library.Finite_Map"
begin

section \<open>Strings\<close>

text \<open>
  A Python \<open>str\<close> is a sequence of Unicode code points, so a string is a list of
  natural numbers. The whitespace table is the complete one of \<open>str.isspace\<close>.
\<close>

type_synonym uchar = nat
type_synonym ustr = "nat list"

definition ascii :: "string \<Rightarrow> ustr" where
  "ascii s = map of_char s"

definition isspace :: "uchar \<Rightarrow> bool" where
  "isspace c \<longleftrightarrow>
     (9 \<le> c \<and> c \<le> 13) \<or> (28 \<le> c \<and> c \<le> 32) \<or> c = 133 \<or> c = 160 \<or> c = 5760 \<or>
     (8192 \<le> c \<and> c \<le> 8202) \<or> c = 8232 \<or> c = 8233 \<or> c = 8239 \<or> c = 8287 \<or> c = 12288"

text \<open>
  The other character tables of the Python runtime (\<open>\d\<close> and \<open>int\<close>, \<open>\w\<close>, the case
  folding of \<open>re.IGNORECASE\<close>, \<open>str.upper\<close>, \<open>str.lower\<close>) are fixed on ASCII and belong
  to the Unicode database of the interpreter beyond it. That part is not code of the
  repository and differs between Python versions, so it is a parameter of the model:
  \<^item> \<open>decimal\<close>: the value of a decimal digit (category Nd), \<open>None\<close> for any other
    character;
  \<^item> \<open>alnum\<close>: \<open>str.isalnum\<close>;
  \<^item> \<open>simple_lower\<close>: the lower-case mapping that \<open>re.IGNORECASE\<close> compares by;
  \<^item> \<open>full_upper\<close>: \<open>str.upper\<close> of one character (it may give several);
  \<^item> \<open>full_lower\<close>: \<open>str.lower\<close> of a string (it depends on the context of a
    character).
  Each is consulted for code points from 128 on only.
\<close>

record unicode =
  decimal :: "uchar \<Rightarrow> nat option"
  alnum :: "uchar \<Rightarrow> bool"
  simple_lower :: "uchar \<Rightarrow> uchar"
  full_upper :: "uchar \<Rightarrow> ustr"
  full_lower :: "ustr \<Rightarrow> ustr"

definition ascii_lower :: "uchar \<Rightarrow> uchar" where
  "ascii_lower c = (if 65 \<le> c \<and> c \<le> 90 then c + 32 else c)"

definition ascii_upper :: "uchar \<Rightarrow> uchar" where
  "ascii_upper c = (if 97 \<le> c \<and> c \<le> 122 then c - 32 else c)"

text \<open>\<open>\d\<close>, and the value \<open>int\<close> gives a digit.\<close>

definition isdigit :: "unicode \<Rightarrow> uchar \<Rightarrow> bool" where
  "isdigit u c \<longleftrightarrow> (if c < 128 then 48 \<le> c \<and> c \<le> 57 else decimal u c \<noteq> None)"

definition digit_value :: "unicode \<Rightarrow> uchar \<Rightarrow> nat" where
  "digit_value u c =
     (if c < 128 then c - 48 else (case decimal u c of None \<Rightarrow> 0 | Some v \<Rightarrow> v))"

text \<open>\<open>\w\<close>: alphanumeric or the underscore.\<close>

definition isw :: "unicode \<Rightarrow> uchar \<Rightarrow> bool" where
  "isw u c \<longleftrightarrow>
     (if c < 128
      then (48 \<le> c \<and> c \<le> 57) \<or> (65 \<le> c \<and> c \<le> 90) \<or> c = 95 \<or> (97 \<le> c \<and> c \<le> 122)
      else alnum u c)"

definition re_lower :: "unicode \<Rightarrow> uchar \<Rightarrow> uchar" where
  "re_lower u c = (if c < 128 then ascii_lower c else simple_lower u c)"

definition lower :: "unicode \<Rightarrow> ustr \<Rightarrow> ustr" where
  "lower u s = (if \<forall>c \<in> set s. c < 128 then map ascii_lower s else full_lower u s)"

definition upper :: "unicode \<Rightarrow> ustr \<Rightarrow> ustr" where
  "upper u s = concat (map (\<lambda>c. if c < 128 then [ascii_upper c] else full_upper u c) s)"

section \<open>inverted\_index.py\<close>

subsection \<open>Paths and the file system\<close>

text \<open>
  A \<open>pathlib.Path\<close> is seen through the accessors the code uses: \<open>parent\<close> and
  \<open>name\<close>, with \<open>stem\<close> and \<open>suffix\<close> cut from the name at its last dot as
  pathlib does (\<open>i = name.rfind('.')\<close>, a suffix only if \<open>0 < i < len(name) - 1\<close>).
  The file system is a finite map from paths to file contents, a file's content being
  its list of lines; directories and permissions are not part of it.
\<close>

datatype path = Path (parent: ustr) (name: ustr)

type_synonym filesystem = "(path, ustr list) fmap"

definition rfind :: "uchar \<Rightarrow> ustr \<Rightarrow> nat option" where
  "rfind c s =
     (if c \<in> set s then Some (length s - 1 - length (takeWhile (\<lambda>x. x \<noteq> c) (rev s)))
      else None)"

definition suffix :: "path \<Rightarrow> ustr" where
  "suffix p =
     (case rfind 46 (name p) of
        None \<Rightarrow> []
      | Some i \<Rightarrow> if 0 < i \<and> i < length (name p) - 1 then drop i (name p) else [])"

definition stem :: "path \<Rightarrow> ustr" where
  "stem p =
     (case rfind 46 (name p) of
        None \<Rightarrow> name p
      | Some i \<Rightarrow> if 0 < i \<and> i < length (name p) - 1 then take i (name p) else name p)"

definition exists :: "filesystem \<Rightarrow> path \<Rightarrow> bool" where
  "exists fs p \<longleftrightarrow> fmlookup fs p \<noteq> None"

text \<open>\<open>str\<close> of a non-negative integer.\<close>

fun str_nat :: "nat \<Rightarrow> ustr" where
  "str_nat n = (if n < 10 then [48 + n] else str_nat (n div 10) @ [48 + n mod 10])"

declare str_nat.simps [simp del]

subsection \<open>resolve\_output\<close>

text \<open>\<open>parent / f"{stem}_{counter}{suffix}"\<close>\<close>

definition new_path :: "path \<Rightarrow> nat \<Rightarrow> path" where
  "new_path p counter = Path (parent p) (stem p @ [95] @ str_nat counter @ suffix p)"

lemma str_nat_not_Nil: "str_nat n \<noteq> []"
  by (subst str_nat.simps) simp

lemma str_nat_inj: "str_nat m = str_nat n \<Longrightarrow> m = n"
proof (induction m arbitrary: n rule: str_nat.induct)
  case (1 m)
  show ?case
  proof (cases "m < 10")
    case m_small: True
    show ?thesis
    proof (cases "n < 10")
      case True
      with m_small "1.prems" show ?thesis by (simp add: str_nat.simps)
    next
      case False
      with m_small "1.prems" str_nat_not_Nil[of "n div 10"] show ?thesis
        by (simp add: str_nat.simps[of m] str_nat.simps[of n])
    qed
  next
    case m_big: False
    show ?thesis
    proof (cases "n < 10")
      case True
      with m_big "1.prems" str_nat_not_Nil[of "m div 10"] show ?thesis
        by (simp add: str_nat.simps[of m] str_nat.simps[of n])
    next
      case n_big: False
      from m_big n_big "1.prems"
      have e: "str_nat (m div 10) = str_nat (n div 10)" "m mod 10 = n mod 10"
        by (simp_all add: str_nat.simps[of m] str_nat.simps[of n])
      from "1.IH"[OF m_big e(1)] e(2) show ?thesis
        by (metis div_mult_mod_eq)
    qed
  qed
qed

lemma new_path_inj: "new_path p i = new_path p j \<Longrightarrow> i = j"
  by (auto simp: new_path_def dest: str_nat_inj)

text \<open>
  The \<open>while True\<close> loop. It ends because the candidate names are pairwise different
  and the file system holds finitely many files: each existing candidate leaves one
  fewer to meet.
\<close>

function resolve_loop :: "filesystem \<Rightarrow> path \<Rightarrow> nat \<Rightarrow> path" where
  "resolve_loop fs p counter =
     (if \<not> exists fs (new_path p counter) then new_path p counter
      else resolve_loop fs p (counter + 1))"
  by pat_completeness auto
termination
proof (relation
    "measure (\<lambda>(fs, p, counter). card {q \<in> fmdom' fs. \<exists>k\<ge>counter. q = new_path p k})")
  show "wf (measure (\<lambda>(fs, p, counter).
      card {q \<in> fmdom' fs. \<exists>k\<ge>counter. q = new_path p k}))"
    by simp
next
  fix fs :: filesystem and p counter
  assume ex: "\<not> \<not> exists fs (new_path p counter)"
  let ?A = "\<lambda>c. {q \<in> fmdom' fs. \<exists>k\<ge>c. q = new_path p k}"
  have fin: "finite (?A counter)" by simp
  have mem: "new_path p counter \<in> ?A counter"
    using ex by (auto simp: exists_def fmdom'I)
  have nmem: "new_path p counter \<notin> ?A (counter + 1)"
    by (auto dest: new_path_inj)
  have sub: "?A (counter + 1) \<subseteq> ?A counter"
    by (auto intro: exI[where x = "_ :: nat"]) (metis Suc_leD)
  have "?A (counter + 1) \<subset> ?A counter" using sub mem nmem by blast
  then have "card (?A (counter + 1)) < card (?A counter)"
    using fin by (rule psubset_card_mono[rotated])
  then show "((fs, p, counter + 1), (fs, p, counter)) \<in>
      measure (\<lambda>(fs, p, counter). card {q \<in> fmdom' fs. \<exists>k\<ge>counter. q = new_path p k})"
    by simp
qed

declare resolve_loop.simps [simp del]

definition resolve_output :: "filesystem \<Rightarrow> path \<Rightarrow> path" where
  "resolve_output fs output = (if \<not> exists fs output then output else resolve_loop fs output 1)"

subsection \<open>get\_lemmas\_file\_paths\<close>

text \<open>
  A \<open>dict\<close> that is iterated is an association list in insertion order; assigning to a
  key that is present replaces its value where it stands.
\<close>

fun dict_set :: "('k \<times> 'v) list \<Rightarrow> 'k \<Rightarrow> 'v \<Rightarrow> ('k \<times> 'v) list" where
  "dict_set [] k v = [(k, v)]"
| "dict_set ((k', v') # d) k v = (if k' = k then (k, v) # d else (k', v') # dict_set d k v)"

text \<open>\<open>int\<close> of a string of decimal digits.\<close>

definition int_digits :: "unicode \<Rightarrow> ustr \<Rightarrow> nat" where
  "int_digits u ds = foldl (\<lambda>n d. 10 * n + digit_value u d) 0 ds"

text \<open>
  \<open>re.compile(r'lemmas_(\d+)\.txt$').match(filename)\<close>, giving \<open>int(match.group(1))\<close>;
  \<open>match\<close> anchors at the start, \<open>$\<close> accepts the end of the string or a final newline.
  The dot that follows is no digit, so the group is the longest run of digits.
\<close>

definition match_lemmas_filename :: "unicode \<Rightarrow> ustr \<Rightarrow> nat option" where
  "match_lemmas_filename u filename =
     (if take 7 filename = ascii ''lemmas_'' then
        (let ds = takeWhile (isdigit u) (drop 7 filename);
             rest = dropWhile (isdigit u) (drop 7 filename)
         in if ds \<noteq> [] \<and> (rest = ascii ''.txt'' \<or> rest = ascii ''.txt'' @ [10])
            then Some (int_digits u ds) else None)
      else None)"

text \<open>\<open>listing\<close> is what \<open>os.listdir(lemmas_path)\<close> returned, in its order.\<close>

fun collect_lemmas_files ::
  "unicode \<Rightarrow> ustr \<Rightarrow> (nat \<times> path) list \<Rightarrow> ustr list \<Rightarrow> (nat \<times> path) list" where
  "collect_lemmas_files u lemmas_path lemmas_files [] = lemmas_files"
| "collect_lemmas_files u lemmas_path lemmas_files (filename # listing) =
     (case match_lemmas_filename u filename of
        Some number \<Rightarrow>
          collect_lemmas_files u lemmas_path
            (dict_set lemmas_files number (Path lemmas_path filename)) listing
      | None \<Rightarrow> collect_lemmas_files u lemmas_path lemmas_files listing)"

definition get_lemmas_file_paths :: "unicode \<Rightarrow> ustr \<Rightarrow> ustr list \<Rightarrow> (nat \<times> path) list" where
  "get_lemmas_file_paths u lemmas_path listing = collect_lemmas_files u lemmas_path [] listing"

subsection \<open>get\_lemmas\_from\_lemma\_file\<close>

datatype exn = ValueError | TypeError | IndexError | OSError | UnicodeError

text \<open>
  \<open>line.split(maxsplit=1)[0]\<close>: the first run of characters that are not whitespace;
  \<open>IndexError\<close> on a line that has none.
\<close>

definition first_column :: "ustr \<Rightarrow> exn + ustr" where
  "first_column line =
     (let s = dropWhile isspace line
      in if s = [] then Inl IndexError else Inr (takeWhile (\<lambda>c. \<not> isspace c) s))"

fun first_columns :: "ustr list \<Rightarrow> exn + ustr list" where
  "first_columns [] = Inr []"
| "first_columns (line # lines) =
     (case first_column line of
        Inl e \<Rightarrow> Inl e
      | Inr lemma \<Rightarrow>
          (case first_columns lines of Inl e \<Rightarrow> Inl e | Inr lemmas \<Rightarrow> Inr (lemma # lemmas)))"

definition get_lemmas_from_lemma_file :: "filesystem \<Rightarrow> path \<Rightarrow> exn + ustr list" where
  "get_lemmas_from_lemma_file fs lemma_file_path =
     (case fmlookup fs lemma_file_path of
        None \<Rightarrow> Inl OSError
      | Some lines \<Rightarrow> first_columns lines)"

subsection \<open>process\_lemmas\_directory\<close>

datatype build_error = EmptyInput | Raised exn

record ProcessingResult =
  file_path :: "path option"
  error :: "build_error option"

text \<open>
  \<open>if lemma not in lemma_to_file_indexes: lemma_to_file_indexes[lemma] = []\<close>, then
  \<open>lemma_to_file_indexes[lemma].append(file_index)\<close>.
\<close>

fun dict_append :: "(ustr \<times> nat list) list \<Rightarrow> ustr \<Rightarrow> nat \<Rightarrow> (ustr \<times> nat list) list" where
  "dict_append [] lemma file_index = [(lemma, [file_index])]"
| "dict_append ((k, file_indexes) # d) lemma file_index =
     (if k = lemma then (k, file_indexes @ [file_index]) # d
      else (k, file_indexes) # dict_append d lemma file_index)"

fun add_lemmas :: "(ustr \<times> nat list) list \<Rightarrow> nat \<Rightarrow> ustr list \<Rightarrow> (ustr \<times> nat list) list" where
  "add_lemmas lemma_to_file_indexes file_index [] = lemma_to_file_indexes"
| "add_lemmas lemma_to_file_indexes file_index (lemma # lemmas) =
     add_lemmas (dict_append lemma_to_file_indexes lemma file_index) file_index lemmas"

fun index_files ::
  "filesystem \<Rightarrow> (ustr \<times> nat list) list \<Rightarrow> (nat \<times> path) list \<Rightarrow> exn + (ustr \<times> nat list) list" where
  "index_files fs lemma_to_file_indexes [] = Inr lemma_to_file_indexes"
| "index_files fs lemma_to_file_indexes ((file_index, lemma_file_path) # rest) =
     (case get_lemmas_from_lemma_file fs lemma_file_path of
        Inl e \<Rightarrow> Inl e
      | Inr lemmas \<Rightarrow> index_files fs (add_lemmas lemma_to_file_indexes file_index lemmas) rest)"

text \<open>\<open>" ".join(...)\<close>\<close>

fun join_space :: "ustr list \<Rightarrow> ustr" where
  "join_space [] = []"
| "join_space [s] = s"
| "join_space (s # t # ss) = s @ [32] @ join_space (t # ss)"

definition string_to_write :: "ustr \<times> nat list \<Rightarrow> ustr" where
  "string_to_write e = fst e @ [32] @ join_space (map str_nat (snd e)) @ [10]"

text \<open>
  Whether the writing at the end goes through is decided outside the program: creating the
  parent directories, creating the file, opening it (with the encoding of the locale) and
  each \<open>write\<close> can raise. \<open>Written\<close> says that none did. \<open>WriteFailed e left\<close> says
  that one raised \<open>e\<close>, and \<open>left\<close> is what the resolved path then holds: \<open>None\<close> when
  the file was not created, otherwise the part of the content that got written.
\<close>

datatype write_outcome = Written | WriteFailed exn "ustr list option"

text \<open>
  \<open>listdir\<close> is the outcome of \<open>os.listdir(lemmas_path)\<close>, \<open>None\<close> when it raises.
  The function returns the file system after the call with the result. Every exception
  is caught and reported in the result's \<open>error\<close>.
\<close>

definition process_lemmas_directory ::
  "unicode \<Rightarrow> filesystem \<Rightarrow> ustr list option \<Rightarrow> ustr \<Rightarrow> path \<Rightarrow> write_outcome \<Rightarrow>
     filesystem \<times> ProcessingResult" where
  "process_lemmas_directory u fs listdir lemmas_path output outcome =
     (case listdir of
        None \<Rightarrow> (fs, \<lparr>file_path = None, error = Some (Raised OSError)\<rparr>)
      | Some listing \<Rightarrow>
          (let lemmas_file_paths = get_lemmas_file_paths u lemmas_path listing
           in if lemmas_file_paths = [] then (fs, \<lparr>file_path = None, error = Some EmptyInput\<rparr>)
              else
                (let resolved_output = resolve_output fs output
                 in case index_files fs [] lemmas_file_paths of
                      Inl e \<Rightarrow> (fs, \<lparr>file_path = None, error = Some (Raised e)\<rparr>)
                    | Inr lemma_to_file_indexes \<Rightarrow>
                        (case outcome of
                           Written \<Rightarrow>
                             (fmupd resolved_output
                                (map string_to_write lemma_to_file_indexes) fs,
                              \<lparr>file_path = Some resolved_output, error = None\<rparr>)
                         | WriteFailed e left \<Rightarrow>
                             ((case left of
                                 None \<Rightarrow> fs
                               | Some content \<Rightarrow> fmupd resolved_output content fs),
                              \<lparr>file_path = None, error = Some (Raised e)\<rparr>)))))"

section \<open>boolean\_search.py\<close>

subsection \<open>The engine\<close>

text \<open>
  \<open>inverted_index\<close> is a \<open>dict[str, set[int]]\<close> that is only looked up;
  \<open>lemmas_index\<close> (the field \<open>self.lemmas\<close>) is a \<open>dict[str, set[str]]\<close> that is iterated, so its insertion order
  is kept; \<open>htmls\<close> is a \<open>dict[int, str]\<close>.
\<close>

record SearchEngine =
  inverted_index :: "(ustr, int set) fmap"
  lemmas_index :: "(ustr \<times> ustr set) list"
  htmls :: "(int, ustr) fmap"

subsection \<open>\_tokenize\_query\<close>

definition kw_AND :: ustr where "kw_AND = ascii ''AND''"
definition kw_OR :: ustr where "kw_OR = ascii ''OR''"
definition kw_NOT :: ustr where "kw_NOT = ascii ''NOT''"
definition lparen :: ustr where "lparen = ascii ''(''"
definition rparen :: ustr where "rparen = ascii '')''"

text \<open>
  \<open>\b\<close> holds at a position when exactly one of the character before it and the
  character at it is a word character; \<open>pw\<close> says whether the character before
  is one (False at the start of the string).
\<close>

definition boundary :: "unicode \<Rightarrow> bool \<Rightarrow> ustr \<Rightarrow> bool" where
  "boundary u pw s \<longleftrightarrow> pw \<noteq> (case s of [] \<Rightarrow> False | c # _ \<Rightarrow> isw u c)"

text \<open>
  \<open>\bKW\b\<close> under \<open>re.IGNORECASE\<close>: a character matches a letter of the pattern
  when the two have the same lower case.
\<close>

definition match_keyword :: "unicode \<Rightarrow> ustr \<Rightarrow> bool \<Rightarrow> ustr \<Rightarrow> bool" where
  "match_keyword u kw pw s \<longleftrightarrow>
     boundary u pw s \<and> length kw \<le> length s \<and>
     map (re_lower u) (take (length kw) s) = map (re_lower u) kw \<and>
     boundary u True (drop (length kw) s)"

text \<open>
  \<open>re.findall(r'\(|\)|\bAND\b|\bOR\b|\bNOT\b|\w+', query, re.IGNORECASE)\<close>: at each
  position the alternatives are tried in order, the first that matches gives a token and
  the scan goes on after it; where none matches the scan moves one character on.
\<close>

function findall_tokens :: "unicode \<Rightarrow> bool \<Rightarrow> ustr \<Rightarrow> ustr list" where
  "findall_tokens u pw [] = []"
| "findall_tokens u pw (c # cs) =
     (if c = 40 \<or> c = 41 then [c] # findall_tokens u False cs
      else if match_keyword u kw_AND pw (c # cs)
        then take 3 (c # cs) # findall_tokens u True (drop 2 cs)
      else if match_keyword u kw_OR pw (c # cs)
        then take 2 (c # cs) # findall_tokens u True (drop 1 cs)
      else if match_keyword u kw_NOT pw (c # cs)
        then take 3 (c # cs) # findall_tokens u True (drop 2 cs)
      else if isw u c then (c # takeWhile (isw u) cs) # findall_tokens u True (dropWhile (isw u) cs)
      else findall_tokens u False cs)"
  by pat_completeness auto
termination
  by (relation "measure (\<lambda>(u, pw, s). length s)")
     (auto simp: less_Suc_eq_le length_dropWhile_le)

definition normalize_token :: "unicode \<Rightarrow> ustr \<Rightarrow> ustr" where
  "normalize_token u t =
     (if upper u t \<in> set [kw_AND, kw_OR, kw_NOT, lparen, rparen] then upper u t else lower u t)"

definition tokenize_query :: "unicode \<Rightarrow> ustr \<Rightarrow> ustr list" where
  "tokenize_query u query = map (normalize_token u) (findall_tokens u False query)"

subsection \<open>\_to\_postfix\<close>

definition precedence :: "ustr \<rightharpoonup> nat" where
  "precedence = [kw_NOT \<mapsto> 3, kw_AND \<mapsto> 2, kw_OR \<mapsto> 1]"

text \<open>\<open>precedence.get(x, 0)\<close>\<close>

definition precedence_get :: "ustr \<Rightarrow> nat" where
  "precedence_get x = (case precedence x of None \<Rightarrow> 0 | Some n \<Rightarrow> n)"

text \<open>
  The operator stack is a list whose head is the top (\<open>operator_stack[-1]\<close>); the
  output queue is a list in output order.
\<close>

fun pop_to_paren :: "ustr list \<Rightarrow> ustr list \<Rightarrow> ustr list \<times> ustr list" where
  "pop_to_paren output_queue [] = (output_queue, [])"
| "pop_to_paren output_queue (x # operator_stack) =
     (if x \<noteq> lparen then pop_to_paren (output_queue @ [x]) operator_stack
      else (output_queue, x # operator_stack))"

fun pop_operators :: "ustr \<Rightarrow> ustr list \<Rightarrow> ustr list \<Rightarrow> ustr list \<times> ustr list" where
  "pop_operators token output_queue [] = (output_queue, [])"
| "pop_operators token output_queue (x # operator_stack) =
     (if x \<noteq> lparen \<and> precedence_get x \<ge> precedence_get token
      then pop_operators token (output_queue @ [x]) operator_stack
      else (output_queue, x # operator_stack))"

fun to_postfix_loop :: "ustr list \<Rightarrow> ustr list \<Rightarrow> ustr list \<Rightarrow> ustr list" where
  "to_postfix_loop [] output_queue operator_stack = output_queue @ operator_stack"
| "to_postfix_loop (token # tokens) output_queue operator_stack =
     (if precedence token = None \<and> token \<noteq> lparen \<and> token \<noteq> rparen
      then to_postfix_loop tokens (output_queue @ [token]) operator_stack
      else if token = lparen then to_postfix_loop tokens output_queue (token # operator_stack)
      else if token = rparen then
        (case pop_to_paren output_queue operator_stack of
           (output_queue', operator_stack') \<Rightarrow>
             to_postfix_loop tokens output_queue'
               (case operator_stack' of
                  [] \<Rightarrow> []
                | x # rest \<Rightarrow> if x = lparen then rest else x # rest))
      else
        (case pop_operators token output_queue operator_stack of
           (output_queue', operator_stack') \<Rightarrow>
             to_postfix_loop tokens output_queue' (token # operator_stack')))"

definition to_postfix :: "ustr list \<Rightarrow> ustr list" where
  "to_postfix tokens = to_postfix_loop tokens [] []"

subsection \<open>\_get\_indexes\_by\_token\<close>

text \<open>
  The result is \<open>None\<close> where the Python returns \<open>None\<close>: \<open>dict.get\<close> on a lemma
  that is not a key of the inverted index.
\<close>

fun scan_lemmas :: "(ustr, int set) fmap \<Rightarrow> (ustr \<times> ustr set) list \<Rightarrow> ustr \<Rightarrow> int set \<Rightarrow> int set option" where
  "scan_lemmas idx [] token default_value = Some default_value"
| "scan_lemmas idx ((lemma, tokens) # rest) token default_value =
     (if token \<in> tokens then fmlookup idx lemma else scan_lemmas idx rest token default_value)"

definition get_indexes_by_token :: "SearchEngine \<Rightarrow> ustr \<Rightarrow> int set \<Rightarrow> int set option" where
  "get_indexes_by_token eng token default_value =
     (if fmlookup (inverted_index eng) token \<noteq> None then fmlookup (inverted_index eng) token
      else scan_lemmas (inverted_index eng) (lemmas_index eng) token default_value)"

subsection \<open>process\_query\<close>

text \<open>
  \<open>ValueError\<close> is what \<open>process_query\<close> raises itself on a malformed query (the
  specification's \<open>MalformedQueryError\<close>); \<open>TypeError\<close> is what Python raises when a
  set operation, or \<open>list\<close>, meets \<open>None\<close>.
  The stack is a list whose head is the top; an entry is \<open>None\<close> where the resolver
  returned \<open>None\<close>.
\<close>

type_synonym stack = "int set option list"

definition all_docs :: "SearchEngine \<Rightarrow> int set" where
  "all_docs eng = fmdom' (htmls eng)"

fun eval_token :: "SearchEngine \<Rightarrow> ustr \<Rightarrow> stack \<Rightarrow> exn + stack" where
  "eval_token eng token stack =
     (if token = kw_AND \<or> token = kw_OR \<or> token = kw_NOT then
        (if token = kw_NOT then
           (case stack of
              [] \<Rightarrow> Inl ValueError
            | operand # stack' \<Rightarrow>
                (case operand of
                   None \<Rightarrow> Inl TypeError
                 | Some s \<Rightarrow> Inr (Some (all_docs eng - s) # stack')))
         else
           (case stack of
              right # left # stack' \<Rightarrow>
                (case (left, right) of
                   (Some l, Some r) \<Rightarrow>
                     Inr (Some (if token = kw_AND then l \<inter> r else l \<union> r) # stack')
                 | _ \<Rightarrow> Inl TypeError)
            | _ \<Rightarrow> Inl ValueError))
      else Inr (get_indexes_by_token eng token {} # stack))"

fun eval_postfix :: "SearchEngine \<Rightarrow> ustr list \<Rightarrow> stack \<Rightarrow> exn + stack" where
  "eval_postfix eng [] stack = Inr stack"
| "eval_postfix eng (token # postfix_tokens) stack =
     (case eval_token eng token stack of
        Inl e \<Rightarrow> Inl e
      | Inr stack' \<Rightarrow> eval_postfix eng postfix_tokens stack')"

text \<open>
  The end of \<open>process_query\<close>: the length check, then
  \<open>[self.htmls.get(idx) for idx in sorted(list(stack[0]))]\<close>.
\<close>

definition finish :: "SearchEngine \<Rightarrow> stack \<Rightarrow> exn + ustr option list" where
  "finish eng stack =
     (if length stack \<noteq> 1 then Inl ValueError
      else (case hd stack of
              None \<Rightarrow> Inl TypeError
            | Some s \<Rightarrow> Inr (map (fmlookup (htmls eng)) (sorted_list_of_set s))))"

definition process_postfix :: "SearchEngine \<Rightarrow> ustr list \<Rightarrow> exn + ustr option list" where
  "process_postfix eng postfix_tokens =
     (case eval_postfix eng postfix_tokens [] of
        Inl e \<Rightarrow> Inl e
      | Inr stack \<Rightarrow> finish eng stack)"

definition process_query :: "unicode \<Rightarrow> SearchEngine \<Rightarrow> ustr \<Rightarrow> exn + ustr option list" where
  "process_query u eng query = process_postfix eng (to_postfix (tokenize_query u query))"


section \<open>Reference notions and example inputs\<close>

text \<open>
  A sample of the tables beyond ASCII: the Cyrillic letters U+0400..U+045F and the
  Arabic-Indic digits U+0660..U+0669. It stands for the interpreter's tables where a
  statement is about one concrete input.
\<close>

definition cyrillic_lower :: "uchar \<Rightarrow> uchar" where
  "cyrillic_lower c =
     (if 1040 \<le> c \<and> c \<le> 1071 then c + 32
      else if 1024 \<le> c \<and> c \<le> 1039 then c + 80
      else c)"

definition cyrillic_upper :: "uchar \<Rightarrow> uchar" where
  "cyrillic_upper c =
     (if 1072 \<le> c \<and> c \<le> 1103 then c - 32
      else if 1104 \<le> c \<and> c \<le> 1119 then c - 80
      else c)"

definition basic_unicode :: unicode where
  "basic_unicode =
     \<lparr>decimal = (\<lambda>c. if 1632 \<le> c \<and> c \<le> 1641 then Some (c - 1632) else None),
      alnum = (\<lambda>c. (1024 \<le> c \<and> c \<le> 1119) \<or> (1632 \<le> c \<and> c \<le> 1641)),
      simple_lower = cyrillic_lower,
      full_upper = (\<lambda>c. [cyrillic_upper c]),
      full_lower = map (\<lambda>c. if c < 128 then ascii_lower c else cyrillic_lower c)\<rparr>"


text \<open>
  The specification's DocumentUniverse, in its own words: every id with at least one
  posting or appearing in the document table. It is compared with \<open>all_docs\<close>, which
  is what the code complements against.
\<close>

definition spec_document_universe :: "SearchEngine \<Rightarrow> int set" where
  "spec_document_universe eng = \<Union> (fmran' (inverted_index eng)) \<union> fmdom' (htmls eng)"

text \<open>
  An index file with the one line \<open>a 1 2\<close>, no lemma files, and an HTML directory that
  holds \<open>1.html\<close> only.
\<close>

definition ex_engine :: SearchEngine where
  "ex_engine =
     \<lparr>inverted_index = fmupd (ascii ''a'') {1, 2} fmempty,
      lemmas_index = [],
      htmls = fmupd 1 (ascii ''1.html'') fmempty\<rparr>"

text \<open>The Russian word of the specification's malformed query, as code points.\<close>

definition slovo :: ustr where "slovo = [1089, 1083, 1086, 1074, 1086]"

text \<open>
  An index that knows the lemma \<open>cat\<close> only, beside a lemma file that groups the tokens
  \<open>cat\<close> and \<open>kit\<close> under the lemma \<open>kitty\<close>, which the index lacks.
\<close>

definition ex_kitty :: SearchEngine where
  "ex_kitty =
     \<lparr>inverted_index = fmupd (ascii ''cat'') {1} fmempty,
      lemmas_index = [(ascii ''kitty'', {ascii ''cat'', ascii ''kit''})],
      htmls = fmupd 1 (ascii ''1.html'') fmempty\<rparr>"

text \<open>An index and a lemma-token group over the same lemma.\<close>

definition ex_cats :: SearchEngine where
  "ex_cats =
     \<lparr>inverted_index = fmupd (ascii ''cat'') {1} fmempty,
      lemmas_index = [(ascii ''cat'', {ascii ''cats''})],
      htmls = fmupd 1 (ascii ''1.html'') fmempty\<rparr>"

text \<open>
  The structural mismatch of an instruction: a binary operator that finds fewer than two
  entries on the stack, or NOT that finds none.
\<close>

definition underflow :: "ustr \<Rightarrow> stack \<Rightarrow> bool" where
  "underflow token stack \<longleftrightarrow>
     ((token = kw_AND \<or> token = kw_OR) \<and> length stack < 2) \<or> (token = kw_NOT \<and> stack = [])"

text \<open>
  The posting list that the index holds for a lemma: the ids of its entry, none when the
  lemma has no entry.
\<close>

definition posting_list :: "(ustr \<times> nat list) list \<Rightarrow> ustr \<Rightarrow> nat list" where
  "posting_list idx L = (case map_of idx L of None \<Rightarrow> [] | Some file_indexes \<Rightarrow> file_indexes)"

text \<open>The lemmas read from a lemma file, none when reading it fails.\<close>

definition lemmas_of :: "filesystem \<Rightarrow> path \<Rightarrow> ustr list" where
  "lemmas_of fs p = (case get_lemmas_from_lemma_file fs p of Inl e \<Rightarrow> [] | Inr lemmas \<Rightarrow> lemmas)"

text \<open>
  A lemma directory with \<open>lemmas_1.txt\<close>, which has the lemma \<open>a\<close> on two lines, and
  \<open>lemmas_2.txt\<close>; the requested output \<open>out/index.txt\<close> exists already. The directory
  is listed once in ascending and once in descending order of the document ids.
\<close>

definition ex_dir :: ustr where "ex_dir = ascii ''lemmas''"

definition ex_out :: path where "ex_out = Path (ascii ''out'') (ascii ''index.txt'')"

definition ex_fs :: filesystem where
  "ex_fs =
     fmupd (Path ex_dir (ascii ''lemmas_1.txt''))
       [ascii ''a x'' @ [10], ascii ''b y'' @ [10], ascii ''a z'' @ [10]]
     (fmupd (Path ex_dir (ascii ''lemmas_2.txt'')) [ascii ''a w'' @ [10]]
     (fmupd ex_out [ascii ''old'' @ [10]] fmempty))"

definition ex_listing_ascending :: "ustr list" where
  "ex_listing_ascending = [ascii ''lemmas_1.txt'', ascii ''notes.md'', ascii ''lemmas_2.txt'']"

definition ex_listing_descending :: "ustr list" where
  "ex_listing_descending = [ascii ''lemmas_2.txt'', ascii ''lemmas_1.txt'']"

definition ex_run_descending :: "filesystem \<times> ProcessingResult" where
  "ex_run_descending = process_lemmas_directory basic_unicode ex_fs (Some ex_listing_descending) ex_dir ex_out Written"


definition ex_run_ascending :: "filesystem \<times> ProcessingResult" where
  "ex_run_ascending = process_lemmas_directory basic_unicode ex_fs (Some ex_listing_ascending) ex_dir ex_out Written"








text \<open>
  Notions for the statements about operator keywords. \<open>keyword\<close> is the list
  \<open>['AND', 'OR', 'NOT']\<close> of \<open>process_query\<close>; two strings are equal
  case-insensitively when they have the same lower case, character by character, as
  \<open>re.IGNORECASE\<close> compares them. \<open>keywords_ascii_only\<close> is what those statements ask
  of the tables beyond ASCII, and it holds of Unicode: no character beyond ASCII has one
  of the letters a, n, d, o, r, t as its lower case, and the lower case of a string with a
  character beyond ASCII is not one of the words and, or, not.
\<close>

definition keyword :: "ustr \<Rightarrow> bool" where
  "keyword kw \<longleftrightarrow> kw = kw_AND \<or> kw = kw_OR \<or> kw = kw_NOT"

definition keyword_letter :: "uchar \<Rightarrow> bool" where
  "keyword_letter k \<longleftrightarrow> k \<in> set (ascii ''andort'')"

definition ci_equal :: "unicode \<Rightarrow> ustr \<Rightarrow> ustr \<Rightarrow> bool" where
  "ci_equal u s t \<longleftrightarrow> map (re_lower u) s = map (re_lower u) t"

definition keywords_ascii_only :: "unicode \<Rightarrow> bool" where
  "keywords_ascii_only u \<longleftrightarrow>
     (\<forall>c. 128 \<le> c \<longrightarrow> \<not> keyword_letter (simple_lower u c)) \<and>
     (\<forall>s kw. (\<exists>c \<in> set s. 128 \<le> c) \<and> keyword kw \<longrightarrow> \<not> ci_equal u (full_lower u s) kw)"

text \<open>
  Notions for the statement on double negation. A token is a literal when \<open>_to_postfix\<close>
  takes its first branch (\<open>token not in precedence and token not in ['(', ')']\<close>).
  \<open>depth n ts\<close> is the number of parentheses left open after the tokens \<open>ts\<close>, read
  with \<open>n\<close> open ones, and \<open>None\<close> if a closing parenthesis finds none open. An
  operand is a single literal, or a group in parentheses whose inner parentheses are
  matched. A query evaluates to a set when the loop of \<open>process_query\<close> ends with that
  set as the only entry of the stack.
\<close>

definition literal :: "ustr \<Rightarrow> bool" where
  "literal t \<longleftrightarrow> precedence t = None \<and> t \<noteq> lparen \<and> t \<noteq> rparen"

fun depth :: "nat \<Rightarrow> ustr list \<Rightarrow> nat option" where
  "depth n [] = Some n"
| "depth n (t # ts) =
     (if t = lparen then depth (Suc n) ts
      else if t = rparen then (case n of 0 \<Rightarrow> None | Suc m \<Rightarrow> depth m ts)
      else depth n ts)"

definition operand :: "ustr list \<Rightarrow> bool" where
  "operand ts \<longleftrightarrow>
     (length ts = 1 \<and> literal (hd ts)) \<or>
     (2 \<le> length ts \<and> hd ts = lparen \<and> last ts = rparen \<and> depth 0 (butlast (tl ts)) = Some 0)"


section \<open>Auxiliary facts\<close>

lemmas kw_defs = kw_AND_def kw_OR_def kw_NOT_def lparen_def rparen_def ascii_def

lemma kw_distinct [simp]:
  "kw_AND \<noteq> kw_OR" "kw_AND \<noteq> kw_NOT" "kw_OR \<noteq> kw_NOT"
  "kw_OR \<noteq> kw_AND" "kw_NOT \<noteq> kw_AND" "kw_NOT \<noteq> kw_OR"
  by (simp_all add: kw_defs)

lemma eval_token_ValueError:
  "eval_token eng token stack = Inl ValueError \<longleftrightarrow> underflow token stack"
  by (auto simp: underflow_def split: list.splits option.splits)


lemma eval_postfix_ValueError:
  "eval_postfix eng p stack = Inl ValueError \<longleftrightarrow>
     (\<exists>pre token rest stack'. p = pre @ token # rest \<and>
        eval_postfix eng pre stack = Inr stack' \<and> underflow token stack')"
proof (induction p arbitrary: stack)
  case Nil
  then show ?case by simp
next
  case (Cons t p)
  show ?case
  proof (cases "eval_token eng t stack")
    case (Inl e)
    show ?thesis
    proof
      assume "eval_postfix eng (t # p) stack = Inl ValueError"
      with Inl have "eval_token eng t stack = Inl ValueError" by (simp del: eval_token.simps)
      then have "underflow t stack" by (simp only: eval_token_ValueError)
      then have "t # p = [] @ t # p \<and> eval_postfix eng [] stack = Inr stack \<and> underflow t stack"
        by simp
      then show "\<exists>pre token rest stack'. t # p = pre @ token # rest \<and>
        eval_postfix eng pre stack = Inr stack' \<and> underflow token stack'" by blast
    next
      assume "\<exists>pre token rest stack'. t # p = pre @ token # rest \<and>
        eval_postfix eng pre stack = Inr stack' \<and> underflow token stack'"
      then obtain pre token rest stack' where
        h: "t # p = pre @ token # rest" "eval_postfix eng pre stack = Inr stack'" "underflow token stack'"
        by blast
      show "eval_postfix eng (t # p) stack = Inl ValueError"
      proof (cases pre)
        case Nil
        with h have "underflow t stack" by simp
        then have "eval_token eng t stack = Inl ValueError" by (simp only: eval_token_ValueError)
        then show ?thesis by (simp del: eval_token.simps)
      next
        case (Cons a pre')
        with h(1) have "a = t" by simp
        with Cons h(2) Inl show ?thesis by (simp del: eval_token.simps)
      qed
    qed
  next
    case (Inr st1)
    have nu: "\<not> underflow t stack"
      using Inr eval_token_ValueError[of eng t stack] by (simp del: eval_token.simps)
    have "eval_postfix eng (t # p) stack = Inl ValueError \<longleftrightarrow> eval_postfix eng p st1 = Inl ValueError"
      using Inr by (simp del: eval_token.simps)
    also have "\<dots> \<longleftrightarrow> (\<exists>pre token rest stack'. p = pre @ token # rest \<and>
        eval_postfix eng pre st1 = Inr stack' \<and> underflow token stack')"
      by (rule Cons.IH)
    also have "\<dots> \<longleftrightarrow> (\<exists>pre token rest stack'. t # p = pre @ token # rest \<and>
        eval_postfix eng pre stack = Inr stack' \<and> underflow token stack')"
    proof
      assume "\<exists>pre token rest stack'. p = pre @ token # rest \<and>
        eval_postfix eng pre st1 = Inr stack' \<and> underflow token stack'"
      then obtain pre token rest stack' where
        h: "p = pre @ token # rest" "eval_postfix eng pre st1 = Inr stack'" "underflow token stack'"
        by blast
      then have "t # p = (t # pre) @ token # rest \<and>
        eval_postfix eng (t # pre) stack = Inr stack' \<and> underflow token stack'"
        using Inr by (simp del: eval_token.simps)
      then show "\<exists>pre token rest stack'. t # p = pre @ token # rest \<and>
        eval_postfix eng pre stack = Inr stack' \<and> underflow token stack'" by blast
    next
      assume "\<exists>pre token rest stack'. t # p = pre @ token # rest \<and>
        eval_postfix eng pre stack = Inr stack' \<and> underflow token stack'"
      then obtain pre token rest stack' where
        h: "t # p = pre @ token # rest" "eval_postfix eng pre stack = Inr stack'" "underflow token stack'"
        by blast
      show "\<exists>pre token rest stack'. p = pre @ token # rest \<and>
        eval_postfix eng pre st1 = Inr stack' \<and> underflow token stack'"
      proof (cases pre)
        case Nil
        with h nu show ?thesis by simp
      next
        case (Cons a pre')
        with h(1) have "a = t" "p = pre' @ token # rest" by simp_all
        with Cons h(2) Inr have "eval_postfix eng pre' st1 = Inr stack'" by (simp del: eval_token.simps)
        with \<open>p = pre' @ token # rest\<close> h(3) show ?thesis by blast
      qed
    qed
    finally show ?thesis .
  qed
qed

lemma finish_ValueError: "finish eng stack = Inl ValueError \<longleftrightarrow> length stack \<noteq> 1"
  by (auto simp: finish_def split: option.splits)

lemma tokenize_AND_slovo: "tokenize_query basic_unicode (ascii ''AND '' @ slovo) = [kw_AND, slovo]"
  by code_simp

lemma to_postfix_AND_slovo: "to_postfix [kw_AND, slovo] = [slovo, kw_AND]"
  by code_simp

lemma process_AND_slovo: "process_query basic_unicode eng (ascii ''AND '' @ slovo) = Inl ValueError"
proof -
  have ne: "slovo \<noteq> kw_AND" "slovo \<noteq> kw_OR" "slovo \<noteq> kw_NOT" by (simp_all add: slovo_def kw_defs)
  show ?thesis
    unfolding process_query_def tokenize_AND_slovo to_postfix_AND_slovo process_postfix_def
    using ne by simp
qed

lemma scan_lemmas_invariant:
  "\<forall>(lemma, tokens) \<in> set ls. fmlookup idx lemma \<noteq> None \<Longrightarrow> scan_lemmas idx ls token d \<noteq> None"
  by (induction ls) auto

lemma scan_lemmas_find:
  "find (\<lambda>(lemma, tokens). token \<in> tokens) ls = Some (lemma, tokens) \<Longrightarrow>
   scan_lemmas idx ls token d = fmlookup idx lemma"
  by (induction ls) (auto split: if_splits)

lemma map_of_dict_append:
  "map_of (dict_append d L i) L' =
     (if L' = L then Some (posting_list d L @ [i]) else map_of d L')"
  by (induction d L i rule: dict_append.induct) (auto simp: posting_list_def)

lemma posting_list_dict_append:
  "posting_list (dict_append d L i) L' =
     (if L' = L then posting_list d L @ [i] else posting_list d L')"
  by (simp add: posting_list_def map_of_dict_append)

lemma fst_set_dict_append: "fst ` set (dict_append d L i) = insert L (fst ` set d)"
  by (induction d L i rule: dict_append.induct) auto

lemma distinct_dict_append:
  "distinct (map fst d) \<Longrightarrow> distinct (map fst (dict_append d L i))"
proof (induction d L i rule: dict_append.induct)
  case (1 lem file_index)
  then show ?case by simp
next
  case (2 k file_indexes d lem file_index)
  then show ?case
    using fst_set_dict_append[of d lem file_index] by auto
qed

lemma posting_list_add_lemmas:
  "posting_list (add_lemmas d i ls) L = posting_list d L @ replicate (count_list ls L) i"
proof (induction ls arbitrary: d)
  case Nil
  then show ?case by simp
next
  case (Cons l ls)
  then show ?case
    by (simp add: posting_list_dict_append replicate_app_Cons_same)
qed

lemma distinct_add_lemmas:
  "distinct (map fst d) \<Longrightarrow> distinct (map fst (add_lemmas d i ls))"
  by (induction ls arbitrary: d) (simp_all add: distinct_dict_append)

lemma posting_list_index_files:
  "index_files fs d paths = Inr idx \<Longrightarrow>
   posting_list idx L =
     posting_list d L @ concat (map (\<lambda>(i, p). replicate (count_list (lemmas_of fs p) L) i) paths)"
proof (induction paths arbitrary: d)
  case Nil
  then show ?case by simp
next
  case (Cons ip paths)
  obtain i p where ip: "ip = (i, p)" by (cases ip)
  show ?case
  proof (cases "get_lemmas_from_lemma_file fs p")
    case (Inl e)
    with Cons.prems ip show ?thesis by simp
  next
    case (Inr ls)
    with Cons.prems ip have "index_files fs (add_lemmas d i ls) paths = Inr idx" by simp
    from Cons.IH[OF this] Inr ip show ?thesis
      by (simp add: posting_list_add_lemmas lemmas_of_def)
  qed
qed

lemma distinct_index_files:
  "index_files fs d paths = Inr idx \<Longrightarrow> distinct (map fst d) \<Longrightarrow> distinct (map fst idx)"
proof (induction paths arbitrary: d)
  case Nil
  then show ?case by simp
next
  case (Cons ip paths)
  obtain i p where ip: "ip = (i, p)" by (cases ip)
  show ?case
  proof (cases "get_lemmas_from_lemma_file fs p")
    case (Inl e)
    with Cons.prems ip show ?thesis by simp
  next
    case (Inr ls)
    with Cons.prems ip have "index_files fs (add_lemmas d i ls) paths = Inr idx" by simp
    from Cons.IH[OF this] Cons.prems(2) show ?thesis
      by (simp add: distinct_add_lemmas)
  qed
qed

lemma index_files_reads:
  "index_files fs d paths = Inr idx \<Longrightarrow> (i, p) \<in> set paths \<Longrightarrow>
   \<exists>ls. get_lemmas_from_lemma_file fs p = Inr ls"
proof (induction paths arbitrary: d)
  case Nil
  then show ?case by simp
next
  case (Cons jq paths)
  obtain j q where jq: "jq = (j, q)" by (cases jq)
  show ?case
  proof (cases "get_lemmas_from_lemma_file fs q")
    case (Inl e)
    with Cons.prems jq show ?thesis by simp
  next
    case (Inr ls)
    with Cons.prems jq have r: "index_files fs (add_lemmas d j ls) paths = Inr idx" by simp
    show ?thesis
    proof (cases "(i, p) = (j, q)")
      case True
      with Inr show ?thesis by auto
    next
      case False
      with Cons.prems(2) jq have "(i, p) \<in> set paths" by auto
      from Cons.IH[OF r this] show ?thesis .
    qed
  qed
qed


lemma first_columns_count:
  "first_columns lines = Inr ls \<Longrightarrow>
   count_list ls L = length (filter (\<lambda>line. first_column line = Inr L) lines)"
proof (induction lines arbitrary: ls)
  case Nil
  then show ?case by simp
next
  case (Cons line lines)
  then show ?case by (auto split: sum.splits)
qed

lemma dict_set_fst: "fst ` set (dict_set d k v) = insert k (fst ` set d)"
  by (induction d k v rule: dict_set.induct) auto

lemma distinct_dict_set: "distinct (map fst d) \<Longrightarrow> distinct (map fst (dict_set d k v))"
proof (induction d k v rule: dict_set.induct)
  case (1 k v)
  then show ?case by simp
next
  case (2 k' v' d k v)
  then show ?case using dict_set_fst[of d k v] by auto
qed

lemma distinct_collect_lemmas_files:
  "distinct (map fst d) \<Longrightarrow> distinct (map fst (collect_lemmas_files u lp d listing))"
  by (induction listing arbitrary: d) (auto simp: distinct_dict_set split: option.splits)

lemma distinct_get_lemmas_file_paths: "distinct (map fst (get_lemmas_file_paths u lp listing))"
  by (simp add: get_lemmas_file_paths_def distinct_collect_lemmas_files)

lemma sorted_concat_replicate:
  "sorted (map fst ps) \<Longrightarrow> sorted (concat (map (\<lambda>(i, p). replicate (f p) i) ps))"
proof (induction ps)
  case Nil
  then show ?case by simp
next
  case (Cons ip ps)
  obtain i p where ip: "ip = (i, p)" by (cases ip)
  from Cons.prems ip have le: "\<forall>j \<in> fst ` set ps. i \<le> j" and s: "sorted (map fst ps)"
    by auto
  have "\<forall>x \<in> set (concat (map (\<lambda>(i, p). replicate (f p) i) ps)). i \<le> x"
    using le by (auto split: if_splits)
  with Cons.IH[OF s] ip show ?case
    by (auto simp: sorted_append)
qed

lemma count_list_replicate:
  "count_list (replicate n x) y = (if x = y then n else 0)"
  by (induction n) auto

lemma count_concat_replicate:
  "distinct (map fst ps) \<Longrightarrow>
   count_list (concat (map (\<lambda>(i, p). replicate (f p) i) ps)) d =
     (case map_of ps d of None \<Rightarrow> 0 | Some p \<Rightarrow> f p)"
proof (induction ps)
  case Nil
  then show ?case by simp
next
  case (Cons ip ps)
  obtain i p where ip: "ip = (i, p)" by (cases ip)
  show ?case
  proof (cases "i = d")
    case True
    with Cons.prems ip have "map_of ps d = None"
      by (simp add: map_of_eq_None_iff)
    with Cons True ip show ?thesis by (simp add: count_list_replicate)
  next
    case False
    with Cons ip show ?thesis by (simp add: count_list_replicate)
  qed
qed

lemma process_lemmas_directory_success:
  assumes "process_lemmas_directory u fs listdir lemmas_path output outcome = (fs', res)"
    and "error res = None"
  shows "\<exists>listing idx. listdir = Some listing \<and>
     index_files fs [] (get_lemmas_file_paths u lemmas_path listing) = Inr idx \<and>
     fs' = fmupd (resolve_output fs output) (map string_to_write idx) fs \<and>
     file_path res = Some (resolve_output fs output) \<and> outcome = Written"
  using assms
  by (auto simp: process_lemmas_directory_def Let_def
      split: option.splits if_splits sum.splits write_outcome.splits)



lemma in_idx_posting_list:
  "distinct (map fst idx) \<Longrightarrow> (L, file_indexes) \<in> set idx \<Longrightarrow> posting_list idx L = file_indexes"
  by (simp add: posting_list_def)



lemma lemmas_of_count:
  "get_lemmas_from_lemma_file fs p = Inr ls \<Longrightarrow>
   count_list (lemmas_of fs p) L =
     (case fmlookup fs p of None \<Rightarrow> 0
      | Some lines \<Rightarrow> length (filter (\<lambda>line. first_column line = Inr L) lines))"
  by (auto simp: lemmas_of_def get_lemmas_from_lemma_file_def first_columns_count split: option.splits)



lemmas eval_defs =
  ex_fs_def ex_dir_def ex_out_def ex_listing_ascending_def ex_listing_descending_def
  process_lemmas_directory_def get_lemmas_file_paths_def match_lemmas_filename_def
  int_digits_def isdigit_def digit_value_def get_lemmas_from_lemma_file_def first_column_def
  isspace_def
  resolve_output_def exists_def new_path_def stem_def suffix_def rfind_def
  string_to_write_def ascii_def Let_def

lemma ex_paths_descending:
  "get_lemmas_file_paths basic_unicode ex_dir ex_listing_descending =
     [(2, Path ex_dir (ascii ''lemmas_2.txt'')), (1, Path ex_dir (ascii ''lemmas_1.txt''))]"
  by (simp add: eval_defs)

lemma ex_paths_ascending:
  "get_lemmas_file_paths basic_unicode ex_dir ex_listing_ascending =
     [(1, Path ex_dir (ascii ''lemmas_1.txt'')), (2, Path ex_dir (ascii ''lemmas_2.txt''))]"
  by (simp add: eval_defs)

lemma ex_resolve: "resolve_output ex_fs ex_out = Path (ascii ''out'') (ascii ''index_1.txt'')"
  by (simp add: eval_defs resolve_loop.simps str_nat.simps)

lemma ex_index_descending:
  "index_files ex_fs [] (get_lemmas_file_paths basic_unicode ex_dir ex_listing_descending) =
     Inr [(ascii ''a'', [2, 1, 1]), (ascii ''b'', [1])]"
  unfolding ex_paths_descending by (simp add: eval_defs)

lemma ex_index_ascending:
  "index_files ex_fs [] (get_lemmas_file_paths basic_unicode ex_dir ex_listing_ascending) =
     Inr [(ascii ''a'', [1, 1, 2]), (ascii ''b'', [1])]"
  unfolding ex_paths_ascending by (simp add: eval_defs)

lemma ex_process_descending:
  "process_lemmas_directory basic_unicode ex_fs (Some ex_listing_descending) ex_dir ex_out Written =
     (fmupd (Path (ascii ''out'') (ascii ''index_1.txt''))
        [ascii ''a 2 1 1'' @ [10], ascii ''b 1'' @ [10]] ex_fs,
      \<lparr>file_path = Some (Path (ascii ''out'') (ascii ''index_1.txt'')), error = None\<rparr>)"
proof -
  have ne: "get_lemmas_file_paths basic_unicode ex_dir ex_listing_descending \<noteq> []"
    by (simp add: ex_paths_descending)
  show ?thesis
    by (simp add: process_lemmas_directory_def Let_def ex_index_descending ex_resolve ne
        string_to_write_def ascii_def str_nat.simps)
qed

lemma ex_process_ascending:
  "process_lemmas_directory basic_unicode ex_fs (Some ex_listing_ascending) ex_dir ex_out Written =
     (fmupd (Path (ascii ''out'') (ascii ''index_1.txt''))
        [ascii ''a 1 1 2'' @ [10], ascii ''b 1'' @ [10]] ex_fs,
      \<lparr>file_path = Some (Path (ascii ''out'') (ascii ''index_1.txt'')), error = None\<rparr>)"
proof -
  have ne: "get_lemmas_file_paths basic_unicode ex_dir ex_listing_ascending \<noteq> []"
    by (simp add: ex_paths_ascending)
  show ?thesis
    by (simp add: process_lemmas_directory_def Let_def ex_index_ascending ex_resolve ne
        string_to_write_def ascii_def str_nat.simps)
qed

lemma count_le_1_distinct: "(\<And>x. count_list xs x \<le> 1) \<Longrightarrow> distinct xs"
proof (induction xs)
  case Nil
  then show ?case by simp
next
  case (Cons a xs)
  have "count_list xs a = 0" using Cons.prems[of a] by simp
  then have "a \<notin> set xs" by (simp add: count_list_0_iff)
  moreover have "distinct xs"
  proof (rule Cons.IH)
    fix x
    show "count_list xs x \<le> 1" using Cons.prems[of x] by (simp split: if_splits)
  qed
  ultimately show ?case by simp
qed

























subsection \<open>The tokenizer on keywords\<close>

lemma keyword_letter_iff:
  "keyword_letter k \<longleftrightarrow> k = 97 \<or> k = 110 \<or> k = 100 \<or> k = 111 \<or> k = 114 \<or> k = 116"
  by (auto simp: keyword_letter_def ascii_def)

lemma re_lower_keyword_letter:
  assumes "keywords_ascii_only u" and "keyword_letter (re_lower u c)"
  shows "c < 128 \<and> isw u c \<and> (c = re_lower u c \<or> c + 32 = re_lower u c)"
proof (cases "c < 128")
  case True
  with assms(2) show ?thesis
    by (auto simp: re_lower_def ascii_lower_def isw_def keyword_letter_iff split: if_splits)
next
  case False
  with assms show ?thesis by (simp add: keywords_ascii_only_def re_lower_def)
qed

lemma keyword_re_lower: "keyword kw \<Longrightarrow> k \<in> set (map (re_lower u) kw) \<Longrightarrow> keyword_letter k"
  by (auto simp: keyword_def kw_defs re_lower_def ascii_lower_def keyword_letter_iff)

lemma keyword_length: "keyword kw \<Longrightarrow> 0 < length kw"
  by (auto simp: keyword_def kw_defs)

lemma ci_equal_keyword_chars:
  assumes t: "keywords_ascii_only u" and kw: "keyword kw" and e: "ci_equal u s kw"
  shows "\<forall>c \<in> set s. c < 128 \<and> isw u c"
proof
  fix c assume "c \<in> set s"
  then have "re_lower u c \<in> set (map (re_lower u) s)" by simp
  with e have "re_lower u c \<in> set (map (re_lower u) kw)" by (simp add: ci_equal_def)
  from keyword_re_lower[OF kw this] re_lower_keyword_letter[OF t]
  show "c < 128 \<and> isw u c" by blast
qed

lemma paren_not_isw: "\<not> isw u 40" "\<not> isw u 41"
  by (simp_all add: isw_def)

lemma match_keyword_nonword_head:
  assumes t: "keywords_ascii_only u" and kw: "keyword kw" and c: "\<not> isw u c"
  shows "\<not> match_keyword u kw pw (c # r)"
proof
  assume m: "match_keyword u kw pw (c # r)"
  then have "ci_equal u (take (length kw) (c # r)) kw"
    by (simp add: match_keyword_def ci_equal_def)
  from ci_equal_keyword_chars[OF t kw this] keyword_length[OF kw]
  have "isw u c" by (cases "length kw") auto
  with c show False by simp
qed

lemma findall_tokens_nonword:
  assumes t: "keywords_ascii_only u" and c: "\<not> isw u c"
  shows "findall_tokens u pw (c # r) = findall_tokens u False [c] @ findall_tokens u False r"
proof -
  have k: "\<not> match_keyword u kw_AND pw' (c # r')" "\<not> match_keyword u kw_OR pw' (c # r')"
    "\<not> match_keyword u kw_NOT pw' (c # r')" for pw' r'
    using match_keyword_nonword_head[OF t _ c] by (simp_all add: keyword_def)
  show ?thesis using c k by simp
qed

lemma takeWhile_append_stop: "\<not> P c \<Longrightarrow> takeWhile P (xs @ c # r) = takeWhile P xs"
  by (induction xs) auto

lemma dropWhile_append_stop: "\<not> P c \<Longrightarrow> dropWhile P (xs @ c # r) = dropWhile P xs @ c # r"
  by (induction xs) auto

lemma match_keyword_append:
  assumes t: "keywords_ascii_only u" and kw: "keyword kw" and c: "\<not> isw u c" and s: "s \<noteq> []"
  shows "match_keyword u kw pw (s @ c # r) \<longleftrightarrow> match_keyword u kw pw s"
proof (cases "length kw \<le> length s")
  case True
  have b: "boundary u pw (s @ c # r) = boundary u pw s"
    using s by (cases s) (simp_all add: boundary_def)
  have d: "boundary u True (drop (length kw) (s @ c # r)) = boundary u True (drop (length kw) s)"
  proof (cases "drop (length kw) s")
    case Nil
    then have "length s \<le> length kw" by simp
    with True have "length kw = length s" by simp
    with Nil c show ?thesis by (simp add: boundary_def)
  next
    case (Cons a t)
    with True show ?thesis by (simp add: boundary_def)
  qed
  from True b d show ?thesis by (simp add: match_keyword_def)
next
  case False
  then have lt: "length s < length kw" by simp
  have "\<not> match_keyword u kw pw (s @ c # r)"
  proof
    assume "match_keyword u kw pw (s @ c # r)"
    then have e: "ci_equal u (take (length kw) (s @ c # r)) kw"
      by (simp add: match_keyword_def ci_equal_def)
    have "c \<in> set (take (length kw) (s @ c # r))"
      using lt by (auto simp: take_Cons')
    with ci_equal_keyword_chars[OF t kw e] have "isw u c" by blast
    with c show False by simp
  qed
  moreover have "\<not> match_keyword u kw pw s" using False by (simp add: match_keyword_def)
  ultimately show ?thesis by simp
qed

lemma findall_tokens_append:
  assumes t: "keywords_ascii_only u" and c: "\<not> isw u c"
  shows "findall_tokens u pw (s @ c # r) = findall_tokens u pw s @ findall_tokens u False (c # r)"
  using assms
proof (induction u pw s rule: findall_tokens.induct)
  case (1 u pw)
  from findall_tokens_nonword[OF "1.prems", of pw r] findall_tokens_nonword[OF "1.prems", of False r]
  show ?case by simp
next
  case (2 u pw x cs)
  note t = "2.prems"(1) and c = "2.prems"(2)
  have mk: "match_keyword u kw pw ((x # cs) @ c # r) = match_keyword u kw pw (x # cs)"
    if "keyword kw" for kw
    using match_keyword_append[OF t that c, of "x # cs" pw r] by simp
  have kA: "keyword kw_AND" and kO: "keyword kw_OR" and kN: "keyword kw_NOT"
    by (simp_all add: keyword_def)
  show ?case
  proof (cases "x = 40 \<or> x = 41")
    case True
    with "2.IH"(1)[OF True t c] show ?thesis by simp
  next
    case np: False
    show ?thesis
    proof (cases "match_keyword u kw_AND pw (x # cs)")
      case True
      then have "2 \<le> length cs" by (simp add: match_keyword_def kw_defs)
      with "2.IH"(2)[OF np True t c] np True mk[OF kA] show ?thesis by simp
    next
      case nA: False
      show ?thesis
      proof (cases "match_keyword u kw_OR pw (x # cs)")
        case True
        then have "1 \<le> length cs" by (simp add: match_keyword_def kw_defs)
        with "2.IH"(3)[OF np nA True t c] np nA True mk[OF kA] mk[OF kO] show ?thesis by simp
      next
        case nO: False
        show ?thesis
        proof (cases "match_keyword u kw_NOT pw (x # cs)")
          case True
          then have "2 \<le> length cs" by (simp add: match_keyword_def kw_defs)
          with "2.IH"(4)[OF np nA nO True t c] np nA nO True mk[OF kA] mk[OF kO] mk[OF kN]
          show ?thesis by simp
        next
          case nN: False
          show ?thesis
          proof (cases "isw u x")
            case True
            with "2.IH"(5)[OF np nA nO nN True t c] np nA nO nN mk[OF kA] mk[OF kO] mk[OF kN] c
            show ?thesis
              by (simp add: takeWhile_append_stop dropWhile_append_stop)
          next
            case False
            with "2.IH"(6)[OF np nA nO nN False t c] np nA nO nN mk[OF kA] mk[OF kO] mk[OF kN]
            show ?thesis by simp
          qed
        qed
      qed
    qed
  qed
qed

lemma findall_tokens_after_word:
  assumes t: "keywords_ascii_only u" and p: "post = [] \<or> \<not> isw u (hd post)"
  shows "findall_tokens u True post = findall_tokens u False post"
proof (cases post)
  case Nil
  then show ?thesis by simp
next
  case (Cons c r)
  with p have c: "\<not> isw u c" by simp
  from findall_tokens_nonword[OF t c, of True r] findall_tokens_nonword[OF t c, of False r] Cons
  show ?thesis by simp
qed

lemma ci_equal_length: "ci_equal u s t \<Longrightarrow> length s = length t"
  unfolding ci_equal_def by (rule map_eq_imp_length_eq)

lemma match_keyword_run:
  assumes t: "keywords_ascii_only u" and kw: "keyword kw" and e: "ci_equal u w kw"
    and p: "post = [] \<or> \<not> isw u (hd post)"
  shows "match_keyword u kw False (w @ post)"
proof -
  have l: "length w = length kw" using e by (rule ci_equal_length)
  with keyword_length[OF kw] obtain x xs where w: "w = x # xs" by (cases w) auto
  from ci_equal_keyword_chars[OF t kw e] w have "isw u x" by simp
  with w have b: "boundary u False (w @ post)" by (simp add: boundary_def)
  have d: "boundary u True (drop (length kw) (w @ post))"
    using p l by (cases post) (simp_all add: boundary_def)
  from b d l e show ?thesis by (simp add: match_keyword_def ci_equal_def)
qed

lemma match_keyword_first_letter:
  assumes "match_keyword u kw pw (x # cs)" and "keyword kw"
  shows "re_lower u x = re_lower u (hd kw)"
proof -
  from assms(2) obtain k ks where kw: "kw = k # ks" by (cases kw) (auto simp: keyword_def kw_defs)
  with assms(1) show ?thesis by (simp add: match_keyword_def)
qed

lemma findall_tokens_keyword_run:
  assumes t: "keywords_ascii_only u" and kw: "keyword kw" and e: "ci_equal u w kw"
    and p: "post = [] \<or> \<not> isw u (hd post)"
  shows "findall_tokens u False (w @ post) = w # findall_tokens u False post"
proof -
  have l: "length w = length kw" using e by (rule ci_equal_length)
  with keyword_length[OF kw] obtain x xs where w: "w = x # xs" by (cases w) auto
  from ci_equal_keyword_chars[OF t kw e] w have x: "isw u x" by simp
  then have np: "\<not> (x = 40 \<or> x = 41)" using paren_not_isw[of u] by auto
  have m: "match_keyword u kw False (x # xs @ post)"
    using match_keyword_run[OF t kw e p] w by simp
  have f: "re_lower u x = re_lower u (hd kw)"
    using match_keyword_first_letter[OF m kw] .
  have cont: "findall_tokens u True post = findall_tokens u False post"
    using findall_tokens_after_word[OF t p] .
  from kw consider "kw = kw_AND" | "kw = kw_OR" | "kw = kw_NOT" by (auto simp: keyword_def)
  then show ?thesis
  proof cases
    case 1
    with l w have "length xs = 2" by (simp add: kw_defs)
    with 1 m np cont w show ?thesis by simp
  next
    case 2
    with l w have lx: "length xs = 1" by (simp add: kw_defs)
    have "\<not> match_keyword u kw_AND False (x # xs @ post)"
    proof
      assume "match_keyword u kw_AND False (x # xs @ post)"
      from match_keyword_first_letter[OF this] f 2 show False
        by (simp add: keyword_def kw_defs re_lower_def ascii_lower_def)
    qed
    with 2 m np cont w lx show ?thesis by simp
  next
    case 3
    with l w have lx: "length xs = 2" by (simp add: kw_defs)
    have "\<not> match_keyword u kw_AND False (x # xs @ post)"
    proof
      assume "match_keyword u kw_AND False (x # xs @ post)"
      from match_keyword_first_letter[OF this] f 3 show False
        by (simp add: keyword_def kw_defs re_lower_def ascii_lower_def)
    qed
    moreover have "\<not> match_keyword u kw_OR False (x # xs @ post)"
    proof
      assume "match_keyword u kw_OR False (x # xs @ post)"
      from match_keyword_first_letter[OF this] f 3 show False
        by (simp add: keyword_def kw_defs re_lower_def ascii_lower_def)
    qed
    ultimately show ?thesis using 3 m np cont w lx by simp
  qed
qed

lemma ascii_upper_of_re_lower:
  assumes "c < 128" and "re_lower u c = re_lower u k" and "65 \<le> k" and "k \<le> 90"
  shows "ascii_upper c = k"
  using assms by (auto simp: re_lower_def ascii_lower_def ascii_upper_def split: if_splits)

lemma upper_ascii: "\<forall>c \<in> set s. c < 128 \<Longrightarrow> upper u s = map ascii_upper s"
  by (induction s) (simp_all add: upper_def)

lemma keyword_capitals: "keyword kw \<Longrightarrow> \<forall>k \<in> set kw. 65 \<le> k \<and> k \<le> 90"
  by (auto simp: keyword_def kw_defs)

lemma map_ascii_upper_keyword:
  assumes "\<forall>c \<in> set s. c < 128" and "map (re_lower u) s = map (re_lower u) kw"
    and "\<forall>k \<in> set kw. 65 \<le> k \<and> k \<le> 90"
  shows "map ascii_upper s = kw"
  using assms
proof (induction s arbitrary: kw)
  case Nil
  then show ?case by simp
next
  case (Cons c s)
  then obtain k ks where kw: "kw = k # ks" by (cases kw) auto
  with Cons.prems have "ascii_upper c = k"
    using ascii_upper_of_re_lower[of c u k] by simp
  moreover from Cons.IH[of ks] Cons.prems kw have "map ascii_upper s = ks" by simp
  ultimately show ?case using kw by simp
qed

lemma upper_keyword:
  assumes t: "keywords_ascii_only u" and kw: "keyword kw" and e: "ci_equal u w kw"
  shows "upper u w = kw"
proof -
  from ci_equal_keyword_chars[OF t kw e] have a: "\<forall>c \<in> set w. c < 128" by blast
  from map_ascii_upper_keyword[OF a _ keyword_capitals[OF kw]] e
  have "map ascii_upper w = kw" by (simp add: ci_equal_def)
  with upper_ascii[OF a] show ?thesis by simp
qed

lemma normalize_token_keyword:
  assumes t: "keywords_ascii_only u" and kw: "keyword kw" and e: "ci_equal u w kw"
  shows "normalize_token u w = kw"
  using upper_keyword[OF assms] kw by (auto simp: normalize_token_def keyword_def)

lemma tokenize_query_keyword_run:
  assumes t: "keywords_ascii_only u" and kw: "keyword kw" and e: "ci_equal u w kw"
    and pre: "pre = [] \<or> \<not> isw u (last pre)"
    and post: "post = [] \<or> \<not> isw u (hd post)"
  shows "tokenize_query u (pre @ w @ post) = tokenize_query u pre @ [kw] @ tokenize_query u post"
proof -
  have run: "findall_tokens u False (w @ post) = w # findall_tokens u False post"
    using findall_tokens_keyword_run[OF t kw e post] .
  have "findall_tokens u False (pre @ w @ post) =
          findall_tokens u False pre @ w # findall_tokens u False post"
  proof (cases pre rule: rev_cases)
    case Nil
    with run show ?thesis by simp
  next
    case (snoc s c)
    with pre have c: "\<not> isw u c" by simp
    have a: "findall_tokens u False (s @ c # (w @ post)) =
            findall_tokens u False s @ findall_tokens u False (c # (w @ post))"
      using findall_tokens_append[OF t c] .
    have b: "findall_tokens u False (c # (w @ post)) =
                 findall_tokens u False [c] @ findall_tokens u False (w @ post)"
      using findall_tokens_nonword[OF t c] .
    have d: "findall_tokens u False (s @ [c]) = findall_tokens u False s @ findall_tokens u False [c]"
      using findall_tokens_append[OF t c, of False s "[]"] by simp
    from a b d snoc run show ?thesis by simp
  qed
  then show ?thesis using normalize_token_keyword[OF t kw e] by (simp add: tokenize_query_def)
qed

lemma re_lower_ascii_lower: "c < 128 \<Longrightarrow> re_lower u (ascii_lower c) = re_lower u c"
  by (auto simp: re_lower_def ascii_lower_def)

lemma normalize_token_not_keyword_like:
  assumes t: "keywords_ascii_only u" and kw: "keyword kw"
    and n: "\<not> keyword (normalize_token u raw)"
  shows "\<not> ci_equal u (normalize_token u raw) kw"
proof (cases "upper u raw \<in> set [kw_AND, kw_OR, kw_NOT, lparen, rparen]")
  case True
  with n have "normalize_token u raw = lparen \<or> normalize_token u raw = rparen"
    by (auto simp: normalize_token_def keyword_def)
  with kw show ?thesis by (auto simp: ci_equal_def keyword_def kw_defs)
next
  case False
  then have nt: "normalize_token u raw = lower u raw" by (simp add: normalize_token_def)
  show ?thesis
  proof (cases "\<forall>c \<in> set raw. c < 128")
    case True
    show ?thesis
    proof
      assume "ci_equal u (normalize_token u raw) kw"
      with nt True have "map (re_lower u) (map ascii_lower raw) = map (re_lower u) kw"
        by (simp add: ci_equal_def lower_def)
      moreover have "map (re_lower u) (map ascii_lower raw) = map (re_lower u) raw"
        using True by (simp add: re_lower_ascii_lower)
      ultimately have "ci_equal u raw kw" by (simp add: ci_equal_def)
      from upper_keyword[OF t kw this] kw False show False by (auto simp: keyword_def)
    qed
  next
    case na: False
    then have "lower u raw = full_lower u raw" by (auto simp: lower_def)
    moreover from na have "\<exists>c \<in> set raw. 128 \<le> c" by (auto simp: not_less)
    with t kw have "\<not> ci_equal u (full_lower u raw) kw"
      unfolding keywords_ascii_only_def by blast
    ultimately show ?thesis using nt by simp
  qed
qed

lemma pop_to_paren_set:
  "pop_to_paren out st = (out', st') \<Longrightarrow> set out' \<union> set st' = set out \<union> set st"
  by (induction out st rule: pop_to_paren.induct) (auto split: if_splits)

lemma pop_operators_set:
  "pop_operators tok out st = (out', st') \<Longrightarrow> set out' \<union> set st' = set out \<union> set st"
  by (induction tok out st rule: pop_operators.induct) (auto split: if_splits)

lemma to_postfix_loop_set:
  "set (to_postfix_loop ts out st) \<subseteq> set ts \<union> set out \<union> set st"
proof (induction ts out st rule: to_postfix_loop.induct)
  case (1 out st)
  then show ?case by simp
next
  case (2 tok ts out st)
  show ?case
  proof (cases "precedence tok = None \<and> tok \<noteq> lparen \<and> tok \<noteq> rparen")
    case True
    with "2.IH"(1)[OF True] show ?thesis by auto
  next
    case lit: False
    show ?thesis
    proof (cases "tok = lparen")
      case True
      with "2.IH"(2)[OF lit True] lit show ?thesis by auto
    next
      case nl: False
      show ?thesis
      proof (cases "tok = rparen")
        case True
        obtain out' st' where p: "pop_to_paren out st = (out', st')" by (cases "pop_to_paren out st")
        let ?st = "case st' of [] \<Rightarrow> [] | x # rest \<Rightarrow> if x = lparen then rest else x # rest"
        have s: "set ?st \<subseteq> set st'" by (auto split: list.splits)
        from "2.IH"(3)[OF lit nl True p[symmetric]]
        have "set (to_postfix_loop ts out' ?st) \<subseteq> set ts \<union> set out' \<union> set ?st" .
        with s pop_to_paren_set[OF p] have "set (to_postfix_loop ts out' ?st) \<subseteq> set ts \<union> set out \<union> set st"
          by blast
        with lit nl True p show ?thesis by auto
      next
        case nr: False
        obtain out' st' where p: "pop_operators tok out st = (out', st')"
          by (cases "pop_operators tok out st")
        from "2.IH"(4)[OF lit nl nr p[symmetric]]
        have "set (to_postfix_loop ts out' (tok # st')) \<subseteq> set ts \<union> set out' \<union> set (tok # st')" .
        with pop_operators_set[OF p]
        have "set (to_postfix_loop ts out' (tok # st')) \<subseteq> insert tok (set ts \<union> set out \<union> set st)"
          by auto
        with lit nl nr p show ?thesis by auto
      qed
    qed
  qed
qed

lemma to_postfix_set: "set (to_postfix ts) \<subseteq> set ts"
  using to_postfix_loop_set[of ts "[]" "[]"] by (simp add: to_postfix_def)

lemma eval_token_keyword_engine:
  "keyword t \<Longrightarrow>
     eval_token (eng\<lparr>inverted_index := ii, lemmas_index := li\<rparr>) t st = eval_token eng t st"
  by (auto simp: keyword_def all_docs_def split: list.splits option.splits)

lemma keywords_ascii_only_basic: "keywords_ascii_only basic_unicode"
proof -
  have a: "\<not> keyword_letter (cyrillic_lower c)" if "128 \<le> c" for c
    using that by (auto simp: keyword_letter_iff cyrillic_lower_def)
  have b: "\<not> ci_equal basic_unicode (full_lower basic_unicode s) kw"
    if c: "c \<in> set s" "128 \<le> c" and kw: "keyword kw" for s c kw
  proof
    assume e: "ci_equal basic_unicode (full_lower basic_unicode s) kw"
    let ?f = "\<lambda>c. if c < 128 then ascii_lower c else cyrillic_lower c"
    have fl: "full_lower basic_unicode s = map ?f s" by (simp add: basic_unicode_def)
    from c have "re_lower basic_unicode (?f c) \<in> set (map (re_lower basic_unicode) (map ?f s))"
      by (metis (no_types, lifting) image_eqI list.set_map)
    with e fl have "re_lower basic_unicode (?f c) \<in> set (map (re_lower basic_unicode) kw)"
      by (simp add: ci_equal_def)
    from keyword_re_lower[OF kw this] have "keyword_letter (re_lower basic_unicode (?f c))" .
    moreover have "128 \<le> ?f c" using c(2) by (simp add: cyrillic_lower_def)
    moreover have "128 \<le> cyrillic_lower d" if "128 \<le> d" for d
      using that by (simp add: cyrillic_lower_def)
    ultimately show False using c(2)
      by (auto simp: re_lower_def basic_unicode_def keyword_letter_iff cyrillic_lower_def split: if_splits)
  qed
  show ?thesis unfolding keywords_ascii_only_def
    using a b by (auto simp: basic_unicode_def)
qed

subsection \<open>Parenthesised groups in \_to\_postfix\<close>

lemma paren_distinct [simp]: "lparen \<noteq> rparen" "rparen \<noteq> lparen"
  "lparen \<noteq> kw_AND" "lparen \<noteq> kw_OR" "lparen \<noteq> kw_NOT"
  "rparen \<noteq> kw_AND" "rparen \<noteq> kw_OR" "rparen \<noteq> kw_NOT"
  "kw_AND \<noteq> lparen" "kw_OR \<noteq> lparen" "kw_NOT \<noteq> lparen"
  "kw_AND \<noteq> rparen" "kw_OR \<noteq> rparen" "kw_NOT \<noteq> rparen"
  by (simp_all add: kw_defs)

lemma precedence_None_iff: "precedence t = None \<longleftrightarrow> \<not> keyword t"
  by (auto simp: precedence_def keyword_def)

lemma precedence_lparen [simp]: "precedence lparen = None" "precedence rparen = None"
  by (simp_all add: precedence_def)


















section \<open>The index builder\<close>




text \<open>
  C3, as stated: the ids of a line are ascending whatever the order in which the files
  are met. With the directory listed as \<open>lemmas_2.txt\<close>, \<open>lemmas_1.txt\<close> the line written
  for the lemma \<open>a\<close> is \<open>a 2 1 1\<close>.
\<close>

theorem descending_listing_counterexample:
  "fmlookup (fst ex_run_descending) (Path (ascii ''out'') (ascii ''index_1.txt'')) =
     Some [ascii ''a 2 1 1'' @ [10], ascii ''b 1'' @ [10]] \<and>
   index_files ex_fs [] (get_lemmas_file_paths basic_unicode ex_dir ex_listing_descending) =
     Inr [(ascii ''a'', [2, 1, 1]), (ascii ''b'', [1])] \<and>
   \<not> sorted [2, 1, 1 :: nat]"
  by (simp add: ex_run_descending_def ex_process_descending ex_index_descending)

text \<open>
  C3, amended: the ids of a line are written in the order in which the builder meets the
  lemma files, each id once per line of its file that starts with the lemma; they are
  ascending whenever the files are met in ascending order of their ids.
\<close>

theorem postings_in_encounter_order:
  assumes "process_lemmas_directory u fs (Some listing) lemmas_path output outcome = (fs', res)"
    and "error res = None"
  shows "\<exists>idx. fmlookup fs' (resolve_output fs output) = Some (map string_to_write idx) \<and>
     (\<forall>L file_indexes. (L, file_indexes) \<in> set idx \<longrightarrow>
        file_indexes =
          concat (map (\<lambda>(i, p). replicate (count_list (lemmas_of fs p) L) i)
            (get_lemmas_file_paths u lemmas_path listing)) \<and>
        (sorted (map fst (get_lemmas_file_paths u lemmas_path listing)) \<longrightarrow> sorted file_indexes))"
proof -
  from process_lemmas_directory_success[OF assms] obtain idx where
    idx: "index_files fs [] (get_lemmas_file_paths u lemmas_path listing) = Inr idx"
    and fs': "fs' = fmupd (resolve_output fs output) (map string_to_write idx) fs"
    by auto
  have d: "distinct (map fst idx)"
    using distinct_index_files[OF idx] by simp
  have "file_indexes =
          concat (map (\<lambda>(i, p). replicate (count_list (lemmas_of fs p) L) i)
            (get_lemmas_file_paths u lemmas_path listing)) \<and>
        (sorted (map fst (get_lemmas_file_paths u lemmas_path listing)) \<longrightarrow> sorted file_indexes)"
    if m: "(L, file_indexes) \<in> set idx" for L file_indexes
  proof -
    have "posting_list idx L = file_indexes" using in_idx_posting_list[OF d m] .
    with posting_list_index_files[OF idx, of L]
    have eq: "file_indexes =
          concat (map (\<lambda>(i, p). replicate (count_list (lemmas_of fs p) L) i)
            (get_lemmas_file_paths u lemmas_path listing))"
      by (simp add: posting_list_def)
    show ?thesis
      using eq sorted_concat_replicate[of "get_lemmas_file_paths u lemmas_path listing"
          "\<lambda>p. count_list (lemmas_of fs p) L"]
      by simp
  qed
  with fs' show ?thesis by (intro exI[of _ idx]) simp
qed

theorem postings_in_encounter_order_witness:
  "error (snd ex_run_ascending) = None \<and>
   sorted (map fst (get_lemmas_file_paths basic_unicode ex_dir ex_listing_ascending)) \<and>
   (\<exists>idx. fmlookup (fst ex_run_ascending) (resolve_output ex_fs ex_out) =
       Some (map string_to_write idx) \<and>
     (\<forall>L file_indexes. (L, file_indexes) \<in> set idx \<longrightarrow> sorted file_indexes))"
proof -
  have e: "error (snd ex_run_ascending) = None"
    by (simp add: ex_run_ascending_def ex_process_ascending)
  have p: "process_lemmas_directory basic_unicode ex_fs (Some ex_listing_ascending) ex_dir ex_out Written =
    (fst ex_run_ascending, snd ex_run_ascending)"
    by (simp add: ex_run_ascending_def)
  have s: "sorted (map fst (get_lemmas_file_paths basic_unicode ex_dir ex_listing_ascending))"
    by (simp add: ex_paths_ascending)
  from postings_in_encounter_order[OF p e] e s show ?thesis by blast
qed

text \<open>
  C4, as stated: a document whose lemma file has the same lemma on several lines is
  associated with it once. The file \<open>lemmas_1.txt\<close> has the lemma \<open>a\<close> on two lines and
  the line written for \<open>a\<close> is \<open>a 1 1 2\<close>.
\<close>

theorem repeated_lemma_counterexample:
  "fmlookup ex_fs (Path ex_dir (ascii ''lemmas_1.txt'')) =
     Some [ascii ''a x'' @ [10], ascii ''b y'' @ [10], ascii ''a z'' @ [10]] \<and>
   fmlookup (fst ex_run_ascending) (Path (ascii ''out'') (ascii ''index_1.txt'')) =
     Some [ascii ''a 1 1 2'' @ [10], ascii ''b 1'' @ [10]] \<and>
   index_files ex_fs [] (get_lemmas_file_paths basic_unicode ex_dir ex_listing_ascending) =
     Inr [(ascii ''a'', [1, 1, 2]), (ascii ''b'', [1])] \<and>
   \<not> distinct [1, 1, 2 :: nat]"
  by (simp add: ex_run_ascending_def ex_process_ascending ex_index_ascending)
     (simp add: ex_fs_def ex_dir_def ascii_def)

text \<open>
  C4, amended: the builder puts a document's id on a lemma's line once for every line of
  the document's lemma file whose first column is that lemma; the line has no repeated id
  when no lemma file has the lemma on more than one line.
\<close>

theorem posting_once_per_line:
  assumes "process_lemmas_directory u fs (Some listing) lemmas_path output outcome = (fs', res)"
    and "error res = None"
  shows "\<exists>idx. fmlookup fs' (resolve_output fs output) = Some (map string_to_write idx) \<and>
     distinct (map fst idx) \<and>
     (\<forall>L file_indexes. (L, file_indexes) \<in> set idx \<longrightarrow>
        (\<forall>d. count_list file_indexes d =
           (case map_of (get_lemmas_file_paths u lemmas_path listing) d of
              None \<Rightarrow> 0
            | Some p \<Rightarrow>
                (case fmlookup fs p of
                   None \<Rightarrow> 0
                 | Some lines \<Rightarrow> length (filter (\<lambda>line. first_column line = Inr L) lines)))) \<and>
        ((\<forall>d p lines. (d, p) \<in> set (get_lemmas_file_paths u lemmas_path listing) \<and>
             fmlookup fs p = Some lines \<longrightarrow>
             length (filter (\<lambda>line. first_column line = Inr L) lines) \<le> 1) \<longrightarrow>
         distinct file_indexes))"
proof -
  let ?paths = "get_lemmas_file_paths u lemmas_path listing"
  from process_lemmas_directory_success[OF assms] obtain idx where
    idx: "index_files fs [] ?paths = Inr idx"
    and fs': "fs' = fmupd (resolve_output fs output) (map string_to_write idx) fs"
    by auto
  have d: "distinct (map fst idx)"
    using distinct_index_files[OF idx] by simp
  have dp: "distinct (map fst ?paths)" by (rule distinct_get_lemmas_file_paths)
  have cnt: "count_list file_indexes d =
           (case map_of ?paths d of
              None \<Rightarrow> 0
            | Some p \<Rightarrow>
                (case fmlookup fs p of
                   None \<Rightarrow> 0
                 | Some lines \<Rightarrow> length (filter (\<lambda>line. first_column line = Inr L) lines)))"
    if m: "(L, file_indexes) \<in> set idx" for L file_indexes d
  proof -
    have "posting_list idx L = file_indexes" using in_idx_posting_list[OF d m] .
    with posting_list_index_files[OF idx, of L]
    have eq: "file_indexes =
          concat (map (\<lambda>(i, p). replicate (count_list (lemmas_of fs p) L) i) ?paths)"
      by (simp add: posting_list_def)
    have c: "count_list file_indexes d =
      (case map_of ?paths d of None \<Rightarrow> 0 | Some p \<Rightarrow> count_list (lemmas_of fs p) L)"
      unfolding eq by (rule count_concat_replicate[OF dp])
    show ?thesis
    proof (cases "map_of ?paths d")
      case None
      with c show ?thesis by simp
    next
      case (Some p)
      then have "(d, p) \<in> set ?paths" by (rule map_of_SomeD)
      from index_files_reads[OF idx this] obtain ls where
        "get_lemmas_from_lemma_file fs p = Inr ls" by blast
      from lemmas_of_count[OF this, of L] c Some show ?thesis by simp
    qed
  qed
  have dis: "distinct file_indexes"
    if m: "(L, file_indexes) \<in> set idx"
      and one: "\<forall>d p lines. (d, p) \<in> set ?paths \<and> fmlookup fs p = Some lines \<longrightarrow>
             length (filter (\<lambda>line. first_column line = Inr L) lines) \<le> 1"
    for L file_indexes
  proof (rule count_le_1_distinct)
    fix x
    show "count_list file_indexes x \<le> 1"
    proof (cases "map_of ?paths x")
      case None
      with cnt[OF m, of x] show ?thesis by simp
    next
      case (Some p)
      then have mem: "(x, p) \<in> set ?paths" by (rule map_of_SomeD)
      show ?thesis
      proof (cases "fmlookup fs p")
        case None
        with cnt[OF m, of x] Some show ?thesis by simp
      next
        case (Some lines)
        with one mem have "length (filter (\<lambda>line. first_column line = Inr L) lines) \<le> 1"
          by blast
        with cnt[OF m, of x] \<open>map_of ?paths x = Some p\<close> Some show ?thesis by simp
      qed
    qed
  qed
  from fs' d cnt dis show ?thesis by (intro exI[of _ idx]) simp
qed

theorem posting_once_per_line_witness:
  "error (snd ex_run_ascending) = None \<and>
   (\<exists>idx. fmlookup (fst ex_run_ascending) (resolve_output ex_fs ex_out) =
       Some (map string_to_write idx) \<and>
     distinct (map fst idx) \<and>
     (\<forall>file_indexes. (ascii ''b'', file_indexes) \<in> set idx \<longrightarrow> distinct file_indexes))"
proof -
  have e: "error (snd ex_run_ascending) = None"
    by (simp add: ex_run_ascending_def ex_process_ascending)
  have p: "process_lemmas_directory basic_unicode ex_fs (Some ex_listing_ascending) ex_dir ex_out Written =
    (fst ex_run_ascending, snd ex_run_ascending)"
    by (simp add: ex_run_ascending_def)
  have one: "\<forall>d p lines. (d, p) \<in> set (get_lemmas_file_paths basic_unicode ex_dir ex_listing_ascending) \<and>
       fmlookup ex_fs p = Some lines \<longrightarrow>
       length (filter (\<lambda>line. first_column line = Inr (ascii ''b'')) lines) \<le> 1"
    unfolding ex_paths_ascending
    by (auto simp: ex_fs_def ex_dir_def ex_out_def first_column_def isspace_def ascii_def)
  from posting_once_per_line[OF p e] e one show ?thesis by blast
qed



section \<open>The query evaluator\<close>

text \<open>
  C2, as the specification states it: NOT complements against the set of all ids with a
  posting or in the document table. The code complements against the keys of the
  document table alone: with postings \<open>a 1 2\<close> and the single document 1, NOT of the
  empty set is \<open>{1}\<close>, while the specification's universe is \<open>{1, 2}\<close>.
\<close>

theorem NOT_universe_counterexample:
  "eval_token ex_engine kw_NOT [Some {}] = Inr [Some {1}] \<and>
   spec_document_universe ex_engine - {} = {1, 2}"
  by code_simp

text \<open>
  C2, amended: an evaluated NOT instruction with operand set \<open>S\<close> pushes the ids of the
  document table minus \<open>S\<close>.
\<close>

theorem NOT_complements_document_table:
  "eval_token eng kw_NOT (Some S # stack) = Inr (Some (fmdom' (htmls eng) - S) # stack)"
  by (simp add: all_docs_def)

text \<open>
  C6: evaluation raises the malformed-query error (\<open>ValueError\<close>) exactly on a structural
  mismatch: when a binary AND/OR instruction is reached with fewer than two entries on
  the stack, when NOT is reached with an empty stack, or when the instructions are all
  consumed and the stack does not hold exactly one entry. Every other postfix program
  completes without it. In particular the query made of \<open>AND\<close>, a space and the word \<open>slovo\<close> raises it, whatever the
  engine holds.
\<close>

theorem malformed_query_exactly_on_mismatch:
  "(process_postfix eng p = Inl ValueError \<longleftrightarrow>
      (\<exists>pre token rest stack. p = pre @ token # rest \<and>
          eval_postfix eng pre [] = Inr stack \<and> underflow token stack) \<or>
      (\<exists>stack. eval_postfix eng p [] = Inr stack \<and> length stack \<noteq> 1)) \<and>
   process_query basic_unicode eng (ascii ''AND '' @ slovo) = Inl ValueError"
proof
  show "process_postfix eng p = Inl ValueError \<longleftrightarrow>
      (\<exists>pre token rest stack. p = pre @ token # rest \<and>
          eval_postfix eng pre [] = Inr stack \<and> underflow token stack) \<or>
      (\<exists>stack. eval_postfix eng p [] = Inr stack \<and> length stack \<noteq> 1)"
  proof (cases "eval_postfix eng p []")
    case (Inl e)
    then have "process_postfix eng p = Inl ValueError \<longleftrightarrow> eval_postfix eng p [] = Inl ValueError"
      by (simp add: process_postfix_def)
    moreover have "\<not> (\<exists>stack. eval_postfix eng p [] = Inr stack \<and> length stack \<noteq> 1)"
      using Inl by simp
    ultimately show ?thesis
      by (simp only: eval_postfix_ValueError[of eng p "[]"] simp_thms)
  next
    case (Inr st)
    then have "eval_postfix eng p [] \<noteq> Inl ValueError" by simp
    then have no: "\<not> (\<exists>pre token rest stack. p = pre @ token # rest \<and>
          eval_postfix eng pre [] = Inr stack \<and> underflow token stack)"
      using eval_postfix_ValueError[of eng p "[]"] by blast
    have a: "process_postfix eng p = Inl ValueError \<longleftrightarrow> length st \<noteq> 1"
      using Inr by (simp add: process_postfix_def finish_ValueError)
    have b: "(\<exists>stack. eval_postfix eng p [] = Inr stack \<and> length stack \<noteq> 1) \<longleftrightarrow> length st \<noteq> 1"
      using Inr by simp
    from no a b show ?thesis by blast
  qed
next
  show "process_query basic_unicode eng (ascii ''AND '' @ slovo) = Inl ValueError"
    by (rule process_AND_slovo)
qed

theorem malformed_query_exactly_on_mismatch_witness:
  "underflow kw_NOT [] \<and> process_postfix ex_engine [kw_NOT] = Inl ValueError \<and>
   process_postfix ex_engine [ascii ''a''] \<noteq> Inl ValueError"
proof -
  have u: "underflow kw_NOT []" by (simp add: underflow_def)
  have "[kw_NOT] = [] @ kw_NOT # [] \<and> eval_postfix ex_engine [] [] = Inr [] \<and> underflow kw_NOT []"
    using u by simp
  then have "\<exists>pre token rest stack. [kw_NOT] = pre @ token # rest \<and>
          eval_postfix ex_engine pre [] = Inr stack \<and> underflow token stack"
    by blast
  with malformed_query_exactly_on_mismatch[of ex_engine "[kw_NOT]"]
  have a: "process_postfix ex_engine [kw_NOT] = Inl ValueError" by blast
  have "process_postfix ex_engine [ascii ''a''] = Inr [Some (ascii ''1.html''), None]"
    by code_simp
  with u a show ?thesis by simp
qed

text \<open>
  C7 at a failing input: with postings \<open>a 1 2\<close> and a document table that knows
  document 1 only, the query \<open>a\<close> returns a list of two entries, the second of which is
  \<open>None\<close>: the id without a table entry is not dropped.
\<close>

theorem missing_id_yields_None_entry:
  "process_query basic_unicode ex_engine (ascii ''a'') = Inr [Some (ascii ''1.html''), None]"
  by code_simp




text \<open>
  C10, operator keywords shadow literals. Under the tables' condition
  \<open>keywords_ascii_only\<close>: a run \<open>w\<close> of characters that equals AND, OR or NOT
  case-insensitively and is maximal as a run of word characters (the query is
  \<open>pre @ w @ post\<close>, \<open>pre\<close> is empty or ends with a character that is not a word
  character, \<open>post\<close> is empty or starts with one) yields exactly one token, the operator
  itself, between the tokens of \<open>pre\<close> and those of \<open>post\<close>; every token of the
  postfix form of any query that \<open>process_query\<close> does not handle as an operator, and
  so hands to the term resolver, differs case-insensitively from the three keywords; and
  what \<open>process_query\<close> does at an operator token does not depend on the inverted index
  or on the lemma-token groups, the only data the resolver reads.
\<close>

theorem operator_keywords_shadow_literals:
  assumes "keywords_ascii_only u"
  shows "(keyword kw \<and> ci_equal u w kw \<and> (pre = [] \<or> \<not> isw u (last pre)) \<and>
          (post = [] \<or> \<not> isw u (hd post)) \<longrightarrow>
            tokenize_query u (pre @ w @ post) =
              tokenize_query u pre @ [kw] @ tokenize_query u post) \<and>
         (\<forall>t \<in> set (to_postfix (tokenize_query u query)).
            \<not> keyword t \<longrightarrow> (\<forall>kw. keyword kw \<longrightarrow> \<not> ci_equal u t kw)) \<and>
         (\<forall>t. keyword t \<longrightarrow>
            eval_token (eng\<lparr>inverted_index := ii, lemmas_index := li\<rparr>) t st = eval_token eng t st)"
proof (intro conjI impI ballI allI)
  assume "keyword kw \<and> ci_equal u w kw \<and> (pre = [] \<or> \<not> isw u (last pre)) \<and>
          (post = [] \<or> \<not> isw u (hd post))"
  then show "tokenize_query u (pre @ w @ post) = tokenize_query u pre @ [kw] @ tokenize_query u post"
    using tokenize_query_keyword_run[OF assms, of kw w pre post] by blast
next
  fix t k
  assume t: "t \<in> set (to_postfix (tokenize_query u query))" and n: "\<not> keyword t" and k: "keyword k"
  from t to_postfix_set have "t \<in> set (tokenize_query u query)" by blast
  then obtain raw where "t = normalize_token u raw" by (auto simp: tokenize_query_def)
  with normalize_token_not_keyword_like[OF assms k, of raw] n show "\<not> ci_equal u t k" by simp
next
  fix t assume "keyword t"
  then show "eval_token (eng\<lparr>inverted_index := ii, lemmas_index := li\<rparr>) t st = eval_token eng t st"
    by (rule eval_token_keyword_engine)
qed

theorem operator_keywords_shadow_literals_witness:
  "keywords_ascii_only basic_unicode \<and> keyword kw_AND \<and>
   ci_equal basic_unicode (ascii ''aNd'') kw_AND \<and>
   \<not> isw basic_unicode (last (ascii ''cat '')) \<and> \<not> isw basic_unicode (hd (ascii '' dog'')) \<and>
   tokenize_query basic_unicode (ascii ''cat aNd dog'') = [ascii ''cat'', kw_AND, ascii ''dog''] \<and>
   to_postfix (tokenize_query basic_unicode (ascii ''cat aNd dog'')) =
     [ascii ''cat'', ascii ''dog'', kw_AND] \<and>
   \<not> ci_equal basic_unicode (ascii ''cat'') kw_AND \<and>
   \<not> ci_equal basic_unicode (ascii ''dog'') kw_AND"
proof -
  have k: "keyword kw_AND" by (simp add: keyword_def)
  have c: "ci_equal basic_unicode (ascii ''aNd'') kw_AND"
    by (simp add: ci_equal_def kw_defs re_lower_def ascii_lower_def)
  have p: "\<not> isw basic_unicode (last (ascii ''cat ''))" "\<not> isw basic_unicode (hd (ascii '' dog''))"
    by (simp_all add: ascii_def isw_def)
  have a: "tokenize_query basic_unicode (ascii ''cat '') = [ascii ''cat'']" by code_simp
  have b: "tokenize_query basic_unicode (ascii '' dog'') = [ascii ''dog'']" by code_simp
  have s: "ascii ''cat '' @ ascii ''aNd'' @ ascii '' dog'' = ascii ''cat aNd dog''"
    by (simp add: ascii_def)
  have pf: "to_postfix [ascii ''cat'', kw_AND, ascii ''dog''] = [ascii ''cat'', ascii ''dog'', kw_AND]"
    by code_simp
  have t: "tokenize_query basic_unicode (ascii ''cat aNd dog'') = [ascii ''cat'', kw_AND, ascii ''dog'']"
    and n: "\<forall>t \<in> set (to_postfix (tokenize_query basic_unicode (ascii ''cat aNd dog''))).
            \<not> keyword t \<longrightarrow> (\<forall>kw. keyword kw \<longrightarrow> \<not> ci_equal basic_unicode t kw)"
    using operator_keywords_shadow_literals[OF keywords_ascii_only_basic,
        of kw_AND "ascii ''aNd''" "ascii ''cat ''" "ascii '' dog''" "ascii ''cat aNd dog''"]
      k c p a b s by simp_all
  have nk: "\<not> keyword (ascii ''cat'')" "\<not> keyword (ascii ''dog'')"
    by (simp_all add: keyword_def kw_defs)
  from n t pf nk k have "\<not> ci_equal basic_unicode (ascii ''cat'') kw_AND"
    "\<not> ci_equal basic_unicode (ascii ''dog'') kw_AND" by simp_all
  with keywords_ascii_only_basic k c p t pf show ?thesis by simp
qed

section \<open>The term resolver\<close>

text \<open>
  C9, as stated: a term that appears in the token set of a lemma absent from the inverted
  index resolves to \<open>None\<close>. The term \<open>cat\<close> is in the token set of \<open>kitty\<close>, which
  the index lacks, and still resolves to a set, being an index key itself.
\<close>

theorem resolver_absent_lemma_counterexample:
  "(ascii ''kitty'', {ascii ''cat'', ascii ''kit''}) \<in> set (lemmas_index ex_kitty) \<and>
   fmlookup (inverted_index ex_kitty) (ascii ''kitty'') = None \<and>
   get_indexes_by_token ex_kitty (ascii ''cat'') {} = Some {1}"
  by (simp add: ex_kitty_def get_indexes_by_token_def ascii_def)

text \<open>
  C9, amended: if every lemma of the lemma-token group is a key of the inverted index,
  the resolver returns a set for every term. A term that is not an index key itself, and
  for which the first group whose tokens contain it belongs to a lemma absent from the
  index, resolves to \<open>None\<close>; unless the term is an operator keyword, the NOT applied
  to it, and the final \<open>list\<close> of a query made of it alone, then raise \<open>TypeError\<close>.
\<close>

theorem resolver_total_under_invariant:
  "((\<forall>(lem, tokens) \<in> set (lemmas_index eng). fmlookup (inverted_index eng) lem \<noteq> None) \<longrightarrow>
      get_indexes_by_token eng token d \<noteq> None) \<and>
   (fmlookup (inverted_index eng) token = None \<and>
    find (\<lambda>(lem, tokens). token \<in> tokens) (lemmas_index eng) = Some (lem, tokens) \<and>
    fmlookup (inverted_index eng) lem = None \<longrightarrow>
      get_indexes_by_token eng token d = None \<and>
      (token \<noteq> kw_AND \<and> token \<noteq> kw_OR \<and> token \<noteq> kw_NOT \<longrightarrow>
         eval_postfix eng [token, kw_NOT] [] = Inl TypeError \<and>
         process_postfix eng [token] = Inl TypeError))"
proof (intro conjI impI)
  assume "\<forall>(lem, tokens) \<in> set (lemmas_index eng). fmlookup (inverted_index eng) lem \<noteq> None"
  then show "get_indexes_by_token eng token d \<noteq> None"
    using scan_lemmas_invariant[of "lemmas_index eng" "inverted_index eng" token d]
    by (simp add: get_indexes_by_token_def)
next
  assume h: "fmlookup (inverted_index eng) token = None \<and>
    find (\<lambda>(lem, tokens). token \<in> tokens) (lemmas_index eng) = Some (lem, tokens) \<and>
    fmlookup (inverted_index eng) lem = None"
  then show n: "get_indexes_by_token eng token d = None"
    by (simp add: get_indexes_by_token_def scan_lemmas_find)
  assume t: "token \<noteq> kw_AND \<and> token \<noteq> kw_OR \<and> token \<noteq> kw_NOT"
  from h have n': "get_indexes_by_token eng token {} = None"
    by (simp add: get_indexes_by_token_def scan_lemmas_find)
  show "eval_postfix eng [token, kw_NOT] [] = Inl TypeError"
    using t n' by simp
  show "process_postfix eng [token] = Inl TypeError"
    using t n' by (simp add: process_postfix_def finish_def)
qed

theorem resolver_total_under_invariant_witness:
  "get_indexes_by_token ex_cats (ascii ''cats'') {} \<noteq> None \<and>
   get_indexes_by_token ex_kitty (ascii ''kit'') {} = None \<and>
   eval_postfix ex_kitty [ascii ''kit'', kw_NOT] [] = Inl TypeError \<and>
   process_postfix ex_kitty [ascii ''kit''] = Inl TypeError"
proof -
  have a: "get_indexes_by_token ex_cats (ascii ''cats'') {} \<noteq> None"
    using resolver_total_under_invariant[of ex_cats "ascii ''cats''" "{}"]
    by (simp add: ex_cats_def)
  have b: "get_indexes_by_token ex_kitty (ascii ''kit'') {} = None \<and>
   eval_postfix ex_kitty [ascii ''kit'', kw_NOT] [] = Inl TypeError \<and>
   process_postfix ex_kitty [ascii ''kit''] = Inl TypeError"
    using resolver_total_under_invariant[where eng = ex_kitty and token = "ascii ''kit''"
        and lem = "ascii ''kitty''" and tokens = "{ascii ''cat'', ascii ''kit''}" and d = "{}"]
    by (simp add: ex_kitty_def kw_defs)
  from a b show ?thesis by simp
qed

end
